theory Spec2Isabelle
  imports
    Main
    "HOL-Library.Sublist"
    "HOL-Library.Char_ord"
    "HOL-Library.List_Lexorder"
    "HOL-Library.Multiset"
begin

section \<open>Go library functions used by astrocam.go\<close>

text \<open>
  Go strings are byte sequences; they are modelled as \<open>string\<close> (a list of \<open>char\<close>, one
  per byte). The comparison \<open><\<close> of Go strings is bytewise lexicographic, which is the
  order of \<open>List_Lexorder\<close> over \<open>Char_ord\<close>. An index result of \<open>-1\<close> is \<open>None\<close>.
\<close>

subsection \<open>Package strings\<close>

fun strings_Index :: "string \<Rightarrow> string \<Rightarrow> nat option" where
  "strings_Index [] sub = (if sub = [] then Some 0 else None)"
| "strings_Index (c # t) sub =
     (if prefix sub (c # t) then Some 0 else map_option Suc (strings_Index t sub))"

fun strings_LastIndex :: "string \<Rightarrow> string \<Rightarrow> nat option" where
  "strings_LastIndex [] sub = (if sub = [] then Some 0 else None)"
| "strings_LastIndex (c # t) sub =
     (case strings_LastIndex t sub of
        Some i \<Rightarrow> Some (Suc i)
      | None \<Rightarrow> (if prefix sub (c # t) then Some 0 else None))"

text \<open>\<open>strings.ReplaceAll(s, old, new)\<close> for a one-byte \<open>old\<close>, as the program calls it.\<close>

definition strings_ReplaceAll :: "string \<Rightarrow> char \<Rightarrow> string \<Rightarrow> string" where
  "strings_ReplaceAll s old new = concat (map (\<lambda>c. if c = old then new else [c]) s)"

subsection \<open>Package path/filepath (Unix)\<close>

definition slash :: char where
  "slash = CHR ''/''"

fun splitSlash :: "string \<Rightarrow> string list" where
  "splitSlash [] = [[]]"
| "splitSlash (c # cs) =
     (if c = slash then [] # splitSlash cs
      else (case splitSlash cs of [] \<Rightarrow> [[c]] | x # xs \<Rightarrow> (c # x) # xs))"

fun joinSlash :: "string list \<Rightarrow> string" where
  "joinSlash [] = []"
| "joinSlash [x] = x"
| "joinSlash (x # y # ys) = x @ [slash] @ joinSlash (y # ys)"

text \<open>
  The element loop of \<open>filepath.Clean\<close>: the second argument is the output written so
  far, as a stack of elements (newest first). Empty and \<open>.\<close> elements are dropped; a
  \<open>..\<close> removes the element before it, is dropped at the root of a rooted path, and is
  kept at the start of a relative one.
\<close>

fun cleanElems :: "bool \<Rightarrow> string list \<Rightarrow> string list \<Rightarrow> string list" where
  "cleanElems rooted out [] = rev out"
| "cleanElems rooted out (e # es) =
     (if e = [] \<or> e = ''.'' then cleanElems rooted out es
      else if e = ''..'' then
        (case out of
           [] \<Rightarrow> (if rooted then cleanElems rooted [] es else cleanElems rooted [e] es)
         | t # ts \<Rightarrow> (if t = ''..'' then cleanElems rooted (e # out) es
                     else cleanElems rooted ts es))
      else cleanElems rooted (e # out) es)"

definition filepath_Clean :: "string \<Rightarrow> string" where
  "filepath_Clean path =
     (if path = [] then ''.''
      else
        let rooted = (hd path = slash);
            out = (if rooted then [slash] else []) @
                  joinSlash (cleanElems rooted [] (splitSlash path))
        in if out = [] then ''.'' else out)"

text \<open>\<open>filepath.Join\<close> of two elements, the only arity the program uses.\<close>

definition filepath_Join :: "string \<Rightarrow> string \<Rightarrow> string" where
  "filepath_Join a b =
     (if a \<noteq> [] then filepath_Clean (a @ [slash] @ b)
      else if b \<noteq> [] then filepath_Clean b
      else [])"

definition filepath_Base :: "string \<Rightarrow> string" where
  "filepath_Base path =
     (if path = [] then ''.''
      else
        let p = rev (dropWhile (\<lambda>c. c = slash) (rev path));
            e = rev (takeWhile (\<lambda>c. c \<noteq> slash) (rev p))
        in if e = [] then [slash] else e)"

definition filepath_IsAbs :: "string \<Rightarrow> bool" where
  "filepath_IsAbs path = prefix [slash] path"

text \<open>
  \<open>filepath.Abs\<close>: the first argument is the result of \<open>os.Getwd\<close> (\<open>None\<close> when it
  fails, the only way \<open>Abs\<close> returns an error).
\<close>

definition filepath_Abs :: "string option \<Rightarrow> string \<Rightarrow> string option" where
  "filepath_Abs wd path =
     (if filepath_IsAbs path then Some (filepath_Clean path)
      else (case wd of None \<Rightarrow> None | Some d \<Rightarrow> Some (filepath_Join d path)))"

subsection \<open>Package regexp, for the pattern of fileBrowser\<close>



text \<open>
  \<open>dotStarThen ext s\<close>: the pattern \<open>.*\<close> followed by the quoted \<open>ext\<close> matches at the
  start of \<open>s\<close>. \<open>MatchString\<close> does not anchor the end of the match, and \<open>.\<close> matches
  every character but the newline.
\<close>

fun dotStarThen :: "string \<Rightarrow> string \<Rightarrow> bool" where
  "dotStarThen ext [] = (ext = [])"
| "dotStarThen ext (c # cs) =
     (prefix ext (c # cs) \<or> (c \<noteq> CHR 0x0A \<and> dotStarThen ext cs))"

fun stripPre :: "string \<Rightarrow> string \<Rightarrow> string option" where
  "stripPre [] s = Some s"
| "stripPre (p # ps) [] = None"
| "stripPre (p # ps) (c # cs) = (if p = c then stripPre ps cs else None)"

text \<open>
  \<open>regex.MatchString(name)\<close> for the pattern \<open>^constellation(_|-SF_).*ext\<close> built by
  fileBrowser, with \<open>ext\<close> quoted by \<open>QuoteMeta\<close>. This is the meaning of the pattern
  when the area token is a literal (\<open>regexLiteral\<close>); a token with pattern syntax in
  it is compiled as such by the program and is outside this model.
\<close>

definition regexMatchString :: "string \<Rightarrow> string \<Rightarrow> string \<Rightarrow> bool" where
  "regexMatchString constellation ext nm =
     (case stripPre constellation nm of
        None \<Rightarrow> False
      | Some r \<Rightarrow>
          (case stripPre ''_'' r of Some r1 \<Rightarrow> dotStarThen ext r1 | None \<Rightarrow> False) \<or>
          (case stripPre ''-SF_'' r of Some r2 \<Rightarrow> dotStarThen ext r2 | None \<Rightarrow> False))"


section \<open>Data model\<close>

record Config =
  Server :: string
  Username :: string
  Password :: string
  CameraDirectory :: string
  ProcessedDirectory :: string
  Interval :: int
  RequestedInterval :: int
  Count :: int
  Prefix :: string
  Postfix :: string
  ArchiveMode :: string

text \<open>
  Times are nanoseconds on a monotonic clock. The zero \<open>time.Time\<close>, which
  \<open>time.Now\<close> never returns, is \<open>None\<close>.
\<close>

record AstroCam =
  config :: Config
  areas :: "string list"
  tempDirectory :: string
  currentDir :: string
  lastUploadTime :: "int option"
  useRAR :: bool
  archiveExt :: string
  zipCompressed :: bool
  rarPath :: string
  testMode :: bool
  testStartTime :: int
  fitsExt :: string

record FileGroup =
  FilesToArchive :: "string list"
  FilesToDelete :: "string list"

text \<open>What a Go call gives back: a value, a returned error, or a run-time panic.\<close>

datatype 'a result = Ok 'a | Failed | Panicked

record DirEntry =
  Name :: string
  IsDir :: bool

text \<open>
  The file system the program sees: the listing of each directory, by the path the
  program names it with (\<open>None\<close>: \<open>os.ReadDir\<close> fails), in listing order, and the
  working directory as \<open>os.Getwd\<close> reports it.
\<close>

record FileSystem =
  dirs :: "string \<Rightarrow> DirEntry list option"
  cwd :: "string option"

text \<open>The names the operating system gives directory entries.\<close>

definition validName :: "string \<Rightarrow> bool" where
  "validName n = (n \<noteq> [] \<and> slash \<notin> set n \<and> n \<noteq> ''.'' \<and> n \<noteq> ''..'')"

definition validDir :: "FileSystem \<Rightarrow> string \<Rightarrow> bool" where
  "validDir fs d =
     (case dirs fs d of None \<Rightarrow> True | Some es \<Rightarrow> list_all (\<lambda>e. validName (Name e)) es)"

text \<open>
  \<open>lastIs n p\<close>: the path \<open>p\<close> is the name \<open>n\<close>, or ends in a separator followed by
  \<open>n\<close>.
\<close>

definition lastIs :: "string \<Rightarrow> string \<Rightarrow> bool" where
  "lastIs n p = (\<exists>X. p = X @ n \<and> (X = [] \<or> last X = slash))"

section \<open>Area File Locator and Batch Selector\<close>

definition fileBrowser :: "FileSystem \<Rightarrow> string \<Rightarrow> string \<Rightarrow> string \<Rightarrow> string list result" where
  "fileBrowser fs constellation dir ext =
     (case dirs fs dir of
        None \<Rightarrow> Failed
      | Some entries \<Rightarrow>
          Ok (map (\<lambda>e. filepath_Join dir (Name e))
                (filter (\<lambda>e. \<not> IsDir e \<and> regexMatchString constellation ext (Name e)) entries)))"

text \<open>
  \<open>sortByNamePart\<close>; \<open>None\<close> is the panic of the slice expression
  \<open>filename[pos+1 : lastDot]\<close> when \<open>lastDot < pos+1\<close>.
\<close>

definition sortByNamePart :: "string \<Rightarrow> string option" where
  "sortByNamePart inputFileName =
     (let filename = filepath_Base inputFileName in
      case strings_Index filename ''_'' of
        None \<Rightarrow> Some filename
      | Some pos \<Rightarrow>
          (case strings_LastIndex filename ''.'' of
             None \<Rightarrow> Some (drop (pos + 1) filename)
           | Some lastDot \<Rightarrow>
               (if pos + 1 \<le> lastDot
                then Some (take (lastDot - (pos + 1)) (drop (pos + 1) filename))
                else None)))"

text \<open>
  \<open>sort.Slice(files, less)\<close> with \<open>less i j = key(files[i]) < key(files[j])\<close>. The sort
  calls \<open>less\<close> on every element as soon as there are two, so a key that panics makes
  the sort panic. The result is sorted by key; \<open>sort.Slice\<close> does not promise an order
  among equal keys, and the model keeps their listing order.
\<close>

definition sort_Slice :: "(string \<Rightarrow> string option) \<Rightarrow> string list \<Rightarrow> string list option" where
  "sort_Slice key files =
     (if length files < 2 then Some files
      else if list_ex (\<lambda>f. key f = None) files then None
      else Some (sort_key (\<lambda>f. the (key f)) files))"

definition getImageFiles :: "AstroCam \<Rightarrow> FileSystem \<Rightarrow> string \<Rightarrow> FileGroup result" where
  "getImageFiles ac fs area =
     (case fileBrowser fs area (CameraDirectory (config ac)) (fitsExt ac) of
        Failed \<Rightarrow> Failed
      | Panicked \<Rightarrow> Panicked
      | Ok found \<Rightarrow>
          (case sort_Slice sortByNamePart found of
             None \<Rightarrow> Panicked
           | Some files \<Rightarrow>
               (let maxFiles =
                      (if int (length files) < Count (config ac) then int (length files)
                       else Count (config ac))
                in if maxFiles = 0 then Ok \<lparr>FilesToArchive = [], FilesToDelete = []\<rparr>
                   else if maxFiles < 0 then Panicked
                   else Ok \<lparr>FilesToArchive = map filepath_Base (take (nat maxFiles) files),
                            FilesToDelete =
                              map (\<lambda>f. case filepath_Abs (cwd fs) f of Some a \<Rightarrow> a | None \<Rightarrow> f)
                                (take (nat maxFiles) files)\<rparr>)))"

text \<open>
  The ordering key in the words of the specification: the part of the base name after
  its first \<open>_\<close>, with the trailing extension (from the last \<open>.\<close> on) removed; the
  whole base name when it has no \<open>_\<close>.
\<close>

definition nameKey :: "string \<Rightarrow> string" where
  "nameKey base =
     (case strings_Index base ''_'' of
        None \<Rightarrow> base
      | Some pos \<Rightarrow>
          (let rest = drop (pos + 1) base in
           case strings_LastIndex rest ''.'' of None \<Rightarrow> rest | Some d \<Rightarrow> take d rest))"

text \<open>\<open>keyLe a b\<close>: both paths have a key, and the key of \<open>a\<close> is not after that of \<open>b\<close>.\<close>

definition keyLe :: "string \<Rightarrow> string \<Rightarrow> bool" where
  "keyLe a b =
     (case sortByNamePart a of
        None \<Rightarrow> False
      | Some ka \<Rightarrow> (case sortByNamePart b of None \<Rightarrow> False | Some kb \<Rightarrow> ka \<le> kb))"

section \<open>Archive Namer\<close>

text \<open>
  Wall-clock time as \<open>time.Now()\<close> gives it to \<open>Format\<close>: the fields of the local
  date and time of day.
\<close>

record Civil =
  year :: nat
  month :: nat
  day :: nat
  hour :: nat
  minute :: nat
  second :: nat

text \<open>
  \<open>Format\<close> writes a field with \<open>appendInt\<close>: the decimal digits of the number, padded
  with zeros on the left up to the width of the layout (4 for \<open>2006\<close>; 2 for \<open>01\<close>,
  \<open>02\<close>, \<open>15\<close>, \<open>04\<close> and \<open>05\<close>). A number with more digits than the width is
  written in full.
\<close>

definition digit :: "nat \<Rightarrow> char" where
  "digit d = char_of (48 + d)"

fun decimal :: "nat \<Rightarrow> string" where
  "decimal n = (if n < 10 then [digit n] else decimal (n div 10) @ [digit (n mod 10)])"

declare decimal.simps [simp del]

definition appendInt :: "nat \<Rightarrow> nat \<Rightarrow> string" where
  "appendInt x width =
     (let ds = decimal x in replicate (width - length ds) (CHR ''0'') @ ds)"

text \<open>The layouts \<open>2006-01-02\<close> and \<open>150405\<close> of packImagesForArea.\<close>

definition formatDate :: "Civil \<Rightarrow> string" where
  "formatDate t = appendInt (year t) 4 @ ''-'' @ appendInt (month t) 2 @ ''-'' @ appendInt (day t) 2"

definition formatTime :: "Civil \<Rightarrow> string" where
  "formatTime t = appendInt (hour t) 2 @ appendInt (minute t) 2 @ appendInt (second t) 2"

text \<open>
  The archive file name built in packImagesForArea, the six strings of its
  \<open>Sprintf\<close> in their order: date, prefix, area, time of day, postfix, extension, with
  \<open>_\<close> after the date and after the area.
\<close>

definition archiveName :: "AstroCam \<Rightarrow> string \<Rightarrow> Civil \<Rightarrow> string" where
  "archiveName ac area now =
     formatDate now @ ''_'' @ Prefix (config ac) @ area @ ''_'' @ formatTime now @
     Postfix (config ac) @ archiveExt ac"

definition sortByArchiveName :: "AstroCam \<Rightarrow> string \<Rightarrow> string" where
  "sortByArchiveName ac archiveFileName =
     (let filename0 = filepath_Base archiveFileName;
          filename1 = (case strings_LastIndex filename0 (archiveExt ac) of
                         Some pos \<Rightarrow> take pos filename0 | None \<Rightarrow> filename0);
          filename = (if Postfix (config ac) \<noteq> [] then
                        (case strings_LastIndex filename1 (Postfix (config ac)) of
                           Some pos \<Rightarrow> take pos filename1 | None \<Rightarrow> filename1)
                      else filename1)
      in case strings_Index filename ''_'' of
           None \<Rightarrow> filename
         | Some pos \<Rightarrow>
             (let strDate = take pos filename in
              case strings_LastIndex filename ''_'' of
                None \<Rightarrow> strDate
              | Some pos2 \<Rightarrow>
                  (let strTime = drop pos2 filename in
                   strings_ReplaceAll (strings_ReplaceAll (strDate @ strTime) (CHR ''-'') [])
                     (CHR ''_'') [])))"

text \<open>
  For the statement of the order of the keys: the last \<open>w\<close> decimal digits of a
  number, the chronological order of two times (to the second), and the fourteen
  digits \<open>YYYYMMDDHHMMSS\<close> of a time.
\<close>

fun digitsW :: "nat \<Rightarrow> nat \<Rightarrow> string" where
  "digitsW 0 n = []"
| "digitsW (Suc w) n = digitsW w (n div 10) @ [digit (n mod 10)]"

definition validCivil :: "Civil \<Rightarrow> bool" where
  "validCivil t =
     (year t < 10000 \<and> 1 \<le> month t \<and> month t \<le> 12 \<and> 1 \<le> day t \<and> day t \<le> 31 \<and>
      hour t < 24 \<and> minute t < 60 \<and> second t < 60)"

definition chronoLess :: "Civil \<Rightarrow> Civil \<Rightarrow> bool" where
  "chronoLess a b =
     (year a < year b \<or> (year a = year b \<and>
       (month a < month b \<or> (month a = month b \<and>
         (day a < day b \<or> (day a = day b \<and>
           (hour a < hour b \<or> (hour a = hour b \<and>
             (minute a < minute b \<or> (minute a = minute b \<and> second a < second b))))))))))"

definition stampKey :: "Civil \<Rightarrow> string" where
  "stampKey t =
     digitsW 4 (year t) @ digitsW 2 (month t) @ digitsW 2 (day t) @
     digitsW 2 (hour t) @ digitsW 2 (minute t) @ digitsW 2 (second t)"

definition sameStamp :: "Civil \<Rightarrow> Civil \<Rightarrow> bool" where
  "sameStamp a b =
     (year a = year b \<and> month a = month b \<and> day a = day b \<and> hour a = hour b \<and>
      minute a = minute b \<and> second a = second b)"

section \<open>The process and its environment\<close>

text \<open>
  What the program does to the outside, in the order it does it. \<open>EvFound\<close> is the
  line "Found n files for area a" that packImagesForArea prints for a non-empty
  group; \<open>EvUploadStart\<close> is the assignment of \<open>lastUploadTime\<close>.
\<close>

datatype Event =
    EvFound string nat
  | EvSleep int
  | EvCreateArchive string "string list"
  | EvTestArchive string
  | EvRemove nat string
  | EvRename nat string string
  | EvUploadFile string
  | EvUploadStart string int
  | EvHttpPost string
  | EvHttpResponse string int
  | EvDeleteFile string

text \<open>
  The state of the process and of what it acts on: the program's own struct, the file
  system, the monotonic clock in nanoseconds, the number of interactions with the
  environment so far, and the log of events (oldest first).
\<close>

record State =
  app :: AstroCam
  fsys :: FileSystem
  clock :: int
  steps :: nat
  events :: "Event list"

text \<open>
  What the program does not decide, as functions of the number of the interaction:
  how long the interaction takes (beyond the time a sleep asks for), whether a system
  call fails, the status of an HTTP response; and the local date and time at an instant
  of the clock. Every behaviour of the environment is some value of this record.
\<close>

record Env =
  delay :: "nat \<Rightarrow> nat"
  fails :: "nat \<Rightarrow> bool"
  status :: "nat \<Rightarrow> int"
  civil :: "int \<Rightarrow> Civil"

text \<open>
  How a call ends: it returns a value, or the process ends in \<open>os.Exit\<close> with a
  code, or in a run-time panic.
\<close>

datatype 'a outcome = Return 'a State | Exit int State | Crash State

definition second_ns :: int where
  "second_ns = 1000000000"

definition tick :: "Env \<Rightarrow> State \<Rightarrow> State" where
  "tick env s = s\<lparr>clock := clock s + int (delay env (steps s)), steps := Suc (steps s)\<rparr>"

definition emit :: "Event \<Rightarrow> State \<Rightarrow> State" where
  "emit e s = s\<lparr>events := events s @ [e]\<rparr>"

text \<open>\<open>time.Now()\<close>: the clock, read at some instant not before the last interaction.\<close>

definition time_Now :: "Env \<Rightarrow> State \<Rightarrow> int \<times> State" where
  "time_Now env s = (let s1 = tick env s in (clock s1, s1))"

text \<open>\<open>time.Sleep(d)\<close> pauses for at least \<open>d\<close>; a negative or zero \<open>d\<close> returns at once.\<close>

definition time_Sleep :: "Env \<Rightarrow> int \<Rightarrow> State \<Rightarrow> State" where
  "time_Sleep env d s = (let s1 = tick env (emit (EvSleep d) s) in s1\<lparr>clock := clock s1 + max 0 d\<rparr>)"

text \<open>A system call that can fail: whether it does (\<open>True\<close>: an error), and the state after.\<close>

definition sysCall :: "Env \<Rightarrow> State \<Rightarrow> bool \<times> State" where
  "sysCall env s = (fails env (steps s), tick env s)"

subsection \<open>Files by path\<close>

definition hasEntry :: "FileSystem \<Rightarrow> string \<Rightarrow> string \<Rightarrow> bool" where
  "hasEntry fs dir n =
     (case dirs fs dir of None \<Rightarrow> False | Some es \<Rightarrow> list_ex (\<lambda>e. Name e = n) es)"

definition delEntry :: "FileSystem \<Rightarrow> string \<Rightarrow> string \<Rightarrow> FileSystem" where
  "delEntry fs dir n =
     fs\<lparr>dirs := (dirs fs)(dir := map_option (filter (\<lambda>e. Name e \<noteq> n)) (dirs fs dir))\<rparr>"

definition addEntry :: "FileSystem \<Rightarrow> string \<Rightarrow> string \<Rightarrow> FileSystem" where
  "addEntry fs dir n =
     (if hasEntry fs dir n then fs
      else fs\<lparr>dirs := (dirs fs)(dir := map_option (\<lambda>es. es @ [\<lparr>Name = n, IsDir = False\<rparr>])
                                          (dirs fs dir))\<rparr>)"

text \<open>
  \<open>inDirAs dir path\<close>: the entry name under which \<open>path\<close> names a file of the directory
  \<open>dir\<close>, when it is a path of that directory.
\<close>

definition inDirAs :: "string \<Rightarrow> string \<Rightarrow> string option" where
  "inDirAs dir path =
     (let n = filepath_Base path in if filepath_Join dir n = path then Some n else None)"

definition fileExistsIn :: "FileSystem \<Rightarrow> string \<Rightarrow> string \<Rightarrow> bool" where
  "fileExistsIn fs dir path =
     (case inDirAs dir path of None \<Rightarrow> False | Some n \<Rightarrow> hasEntry fs dir n)"

text \<open>
  The path getImageFiles hands to moveImages for an entry of the camera directory, and
  the entries of the camera directory such a path names.
\<close>

definition imagePath :: "AstroCam \<Rightarrow> FileSystem \<Rightarrow> string \<Rightarrow> string" where
  "imagePath ac fs n =
     (let f = filepath_Join (CameraDirectory (config ac)) n in
      case filepath_Abs (cwd fs) f of Some a \<Rightarrow> a | None \<Rightarrow> f)"

definition imagePresent :: "AstroCam \<Rightarrow> FileSystem \<Rightarrow> string \<Rightarrow> bool" where
  "imagePresent ac fs path =
     (case dirs fs (CameraDirectory (config ac)) of
        None \<Rightarrow> False
      | Some es \<Rightarrow> list_ex (\<lambda>e. imagePath ac fs (Name e) = path) es)"

definition delImage :: "AstroCam \<Rightarrow> FileSystem \<Rightarrow> string \<Rightarrow> FileSystem" where
  "delImage ac fs path =
     fs\<lparr>dirs := (dirs fs)(CameraDirectory (config ac) :=
            map_option (filter (\<lambda>e. imagePath ac fs (Name e) \<noteq> path))
              (dirs fs (CameraDirectory (config ac))))\<rparr>"

section \<open>Re-delivery scan: the archives in the scratch directory\<close>

text \<open>
  \<open>filepath.Glob(filepath.Join(tempDirectory, "*" + archiveExt))\<close>, for a scratch
  directory path without pattern characters: the entries whose name ends with the
  extension; a directory that cannot be read gives no match and no error. The list is
  then sorted with \<open>sort.Slice\<close> by the key of sortByArchiveName.
\<close>

definition getArchiveFiles :: "AstroCam \<Rightarrow> FileSystem \<Rightarrow> string list" where
  "getArchiveFiles ac fs =
     (let files =
        (case dirs fs (tempDirectory ac) of
           None \<Rightarrow> []
         | Some es \<Rightarrow>
             map (\<lambda>e. filepath_Join (tempDirectory ac) (Name e))
               (filter (\<lambda>e. suffix (archiveExt ac) (Name e)) es))
      in sort_key (sortByArchiveName ac) files)"

section \<open>Relocation Manager\<close>

text \<open>
  The body of the inner loop of moveImages for one file: \<open>os.Stat\<close> of the target,
  then \<open>os.Remove\<close> of the source when the target exists, \<open>os.Rename\<close> otherwise.
  The result is \<open>True\<close> when the file failed.
\<close>

definition moveFile :: "Env \<Rightarrow> nat \<Rightarrow> string \<Rightarrow> State \<Rightarrow> bool \<times> State" where
  "moveFile env attempt file s =
     (let basename = filepath_Base file;
          processed = ProcessedDirectory (config (app s));
          targetPath = filepath_Join processed basename;
          (statErr, s1) = sysCall env s
      in if \<not> statErr \<and> hasEntry (fsys s1) processed basename then
           (let (err, s2) = sysCall env (emit (EvRemove attempt file) s1) in
            if err \<or> \<not> imagePresent (app s2) (fsys s2) file then (True, s2)
            else (False, s2\<lparr>fsys := delImage (app s2) (fsys s2) file\<rparr>))
         else
           (let (err, s2) = sysCall env (emit (EvRename attempt file targetPath) s1) in
            if err \<or> \<not> imagePresent (app s2) (fsys s2) file \<or> dirs (fsys s2) processed = None
            then (True, s2)
            else (False, s2\<lparr>fsys := addEntry (delImage (app s2) (fsys s2) file) processed basename\<rparr>)))"

text \<open>One pass over the files: the files that failed, in order, and the state after.\<close>

fun moveFiles :: "Env \<Rightarrow> nat \<Rightarrow> string list \<Rightarrow> State \<Rightarrow> string list \<times> State" where
  "moveFiles env attempt [] s = ([], s)"
| "moveFiles env attempt (file # rest) s =
     (let (failed, s1) = moveFile env attempt file s;
          (failedFiles, s2) = moveFiles env attempt rest s1
      in ((if failed then file # failedFiles else failedFiles), s2))"

definition maxRetries :: nat where
  "maxRetries = 2"

definition retryDelay :: int where
  "retryDelay = 3 * second_ns"

text \<open>
  The loop \<open>for attempt := 1; attempt <= maxRetries; attempt++\<close> of moveImages, from a
  given attempt on. The value is \<open>True\<close> for a returned error.
\<close>

function moveAttempts :: "Env \<Rightarrow> nat \<Rightarrow> string list \<Rightarrow> State \<Rightarrow> bool outcome" where
  "moveAttempts env attempt files s =
     (if attempt \<le> maxRetries then
        (let (failedFiles, s1) = moveFiles env attempt files s in
         if failedFiles = [] then Return False s1
         else if attempt = maxRetries then
           (if testMode (app s1) then Exit 1 s1 else Return False s1)
         else moveAttempts env (attempt + 1) failedFiles (time_Sleep env retryDelay s1))
      else Return False s)"
  by pat_completeness auto
termination
  by (relation "measure (\<lambda>(env, attempt, files, s). Suc maxRetries - attempt)") auto

declare moveAttempts.simps [simp del]

definition moveImages :: "Env \<Rightarrow> string list \<Rightarrow> State \<Rightarrow> bool outcome" where
  "moveImages env files s = moveAttempts env 1 files s"

section \<open>Delivery Throttle and Uploader\<close>

definition uploadThrottleDelay :: int where
  "uploadThrottleDelay = 120 * second_ns"

definition waitForUploadThrottle :: "Env \<Rightarrow> State \<Rightarrow> State" where
  "waitForUploadThrottle env s =
     (case lastUploadTime (app s) of
        None \<Rightarrow> s
      | Some lastTime \<Rightarrow>
          (let (now, s1) = time_Now env s;
               timeSinceLastUpload = now - lastTime
           in if timeSinceLastUpload < uploadThrottleDelay
              then time_Sleep env (uploadThrottleDelay - timeSinceLastUpload) s1
              else s1))"

text \<open>
  uploadFile. The value is \<open>True\<close> for a returned error. The system calls that can
  fail are \<open>os.Open\<close> (also when the file is not there), \<open>io.Copy\<close>,
  \<open>http.NewRequest\<close> and \<open>client.Do\<close>; a response comes with the status the
  environment gives.
\<close>

definition uploadFile :: "Env \<Rightarrow> string \<Rightarrow> State \<Rightarrow> bool outcome" where
  "uploadFile env filePath s =
     (let s1 = waitForUploadThrottle env (emit (EvUploadFile filePath) s);
          (now, s2) = time_Now env s1;
          s3 = emit (EvUploadStart filePath now) (s2\<lparr>app := (app s2)\<lparr>lastUploadTime := Some now\<rparr>\<rparr>);
          (openErr, s4) = sysCall env s3
      in if openErr \<or> \<not> fileExistsIn (fsys s4) (tempDirectory (app s4)) filePath then Return True s4
         else
           (let (copyErr, s5) = sysCall env s4 in
            if copyErr then Return True s5
            else
              (let (reqErr, s6) = sysCall env s5 in
               if reqErr then Return True s6
               else
                 (let s7 = emit (EvHttpPost filePath) s6;
                      StatusCode = status env (steps s7);
                      (doErr, s8) = sysCall env s7
                  in if doErr then (if testMode (app s8) then Exit 1 s8 else Return True s8)
                     else
                       (let s9 = emit (EvHttpResponse filePath StatusCode) s8 in
                        if 200 \<le> StatusCode \<and> StatusCode < 300 then Return False s9
                        else if testMode (app s9) then Exit 1 s9
                        else Return True s9)))))"

definition deleteFile :: "Env \<Rightarrow> string \<Rightarrow> State \<Rightarrow> bool \<times> State" where
  "deleteFile env filePath s =
     (let (err, s1) = sysCall env (emit (EvDeleteFile filePath) s);
          temp = tempDirectory (app s1)
      in if err \<or> \<not> fileExistsIn (fsys s1) temp filePath then (True, s1)
         else (False, s1\<lparr>fsys := delEntry (fsys s1) temp (filepath_Base filePath)\<rparr>))"

definition makeJobForArchive :: "Env \<Rightarrow> string \<Rightarrow> State \<Rightarrow> unit outcome" where
  "makeJobForArchive env archiveFile s =
     (case uploadFile env archiveFile s of
        Exit c s1 \<Rightarrow> Exit c s1
      | Crash s1 \<Rightarrow> Crash s1
      | Return err s1 \<Rightarrow>
          (if err then Return () s1
           else Return () (snd (deleteFile env archiveFile s1))))"

fun makeJobForArchiveList :: "Env \<Rightarrow> string list \<Rightarrow> State \<Rightarrow> unit outcome" where
  "makeJobForArchiveList env [] s = Return () s"
| "makeJobForArchiveList env (archiveFile # rest) s =
     (case makeJobForArchive env archiveFile s of
        Return u s1 \<Rightarrow> makeJobForArchiveList env rest s1
      | Exit c s1 \<Rightarrow> Exit c s1
      | Crash s1 \<Rightarrow> Crash s1)"

definition makeJobForArchives :: "Env \<Rightarrow> State \<Rightarrow> unit outcome" where
  "makeJobForArchives env s = makeJobForArchiveList env (getArchiveFiles (app s) (fsys s)) s"

section \<open>Archive Backend\<close>

text \<open>
  createArchive and testArchive: the subprocess or the ZIP writer succeeds or fails as
  the environment decides. The ZIP writer first creates the file (\<open>os.Create\<close>) and
  then adds the members, so a failure while adding leaves a partial file; the external
  tool is taken to leave none when it fails.
\<close>

definition createArchive :: "Env \<Rightarrow> string \<Rightarrow> string list \<Rightarrow> State \<Rightarrow> bool \<times> State" where
  "createArchive env archiveFileName files s =
     (let temp = tempDirectory (app s);
          s0 = emit (EvCreateArchive archiveFileName files) s
      in case inDirAs temp archiveFileName of
           None \<Rightarrow> (True, snd (sysCall env s0))
         | Some n \<Rightarrow>
             (if useRAR (app s) then
                (let (err, s1) = sysCall env s0 in
                 if err \<or> dirs (fsys s1) temp = None then (True, s1)
                 else (False, s1\<lparr>fsys := addEntry (fsys s1) temp n\<rparr>))
              else
                (let (createErr, s1) = sysCall env s0 in
                 if createErr \<or> dirs (fsys s1) temp = None then (True, s1)
                 else
                   (let s2 = s1\<lparr>fsys := addEntry (fsys s1) temp n\<rparr>;
                        (addErr, s3) = sysCall env s2
                    in (addErr, s3)))))"

definition testArchive :: "Env \<Rightarrow> string \<Rightarrow> State \<Rightarrow> bool \<times> State" where
  "testArchive env archiveFileName s = sysCall env (emit (EvTestArchive archiveFileName) s)"

section \<open>The pipeline of one area\<close>

definition ERROR :: string where
  "ERROR = ''ERROR''"

definition EMPTY :: string where
  "EMPTY = ''EMPTY''"

text \<open>
  packImagesForArea: the returned string and whether an error is returned with it. The
  two \<open>os.Chdir\<close> calls are system calls that can fail; the working directory that
  getImageFiles resolves paths against is the one of the start of the call.
\<close>

definition packImagesForArea :: "Env \<Rightarrow> string \<Rightarrow> State \<Rightarrow> (string \<times> bool) outcome" where
  "packImagesForArea env area s =
     (case getImageFiles (app s) (fsys s) area of
        Failed \<Rightarrow> Return (ERROR, True) s
      | Panicked \<Rightarrow> Crash s
      | Ok fileGroup \<Rightarrow>
          (if length (FilesToArchive fileGroup) = 0 then Return (EMPTY, False) s
           else
             (let s1 = time_Sleep env (5 * second_ns)
                         (emit (EvFound area (length (FilesToArchive fileGroup))) s);
                  (now, s2) = time_Now env s1;
                  archiveFileName =
                    filepath_Join (tempDirectory (app s2)) (archiveName (app s2) area (civil env now));
                  (chdirErr, s3) = sysCall env s2
              in if chdirErr then (if testMode (app s3) then Exit 1 s3 else Return (ERROR, True) s3)
                 else
                   (let (createErr, s4) = createArchive env archiveFileName (FilesToArchive fileGroup) s3 in
                    if createErr then (if testMode (app s4) then Exit 1 s4 else Return (ERROR, True) s4)
                    else
                      (let (testErr, s5) = testArchive env archiveFileName s4 in
                       if testErr then (if testMode (app s5) then Exit 1 s5 else Return (ERROR, True) s5)
                       else
                         (let (backErr, s6) = sysCall env s5 in
                          if backErr then (if testMode (app s6) then Exit 1 s6 else Return (ERROR, True) s6)
                          else
                            (case moveImages env (FilesToDelete fileGroup) s6 of
                               Exit c s7 \<Rightarrow> Exit c s7
                             | Crash s7 \<Rightarrow> Crash s7
                             | Return err s7 \<Rightarrow>
                                 (if err then Return (ERROR, True) s7
                                  else Return (archiveFileName, False) s7))))))))"

definition makeJobForArea :: "Env \<Rightarrow> string \<Rightarrow> State \<Rightarrow> unit outcome" where
  "makeJobForArea env area s =
     (case packImagesForArea env area s of
        Exit c s1 \<Rightarrow> Exit c s1
      | Crash s1 \<Rightarrow> Crash s1
      | Return (archiveFile, err) s1 \<Rightarrow>
          (if err then Return () s1
           else if archiveFile = ERROR then Return () s1
           else if archiveFile = EMPTY then Return () s1
           else makeJobForArchive env archiveFile s1))"

section \<open>Pipeline Controller\<close>

text \<open>
  The body of the loop of makeJobForAreas for one area: the flag \<open>hasNewFiles\<close> goes in
  and comes out.
\<close>

definition makeJobForAreasBody :: "Env \<Rightarrow> string \<Rightarrow> bool \<Rightarrow> State \<Rightarrow> bool outcome" where
  "makeJobForAreasBody env area hasNewFiles s =
     (case fileBrowser (fsys s) area (CameraDirectory (config (app s))) (fitsExt (app s)) of
        Ok files \<Rightarrow>
          (if int (length files) \<ge> Count (config (app s)) then
             (case makeJobForArea env area s of
                Return u s1 \<Rightarrow> Return True s1
              | Exit c s1 \<Rightarrow> Exit c s1
              | Crash s1 \<Rightarrow> Crash s1)
           else Return hasNewFiles s)
      | Failed \<Rightarrow> Return hasNewFiles s
      | Panicked \<Rightarrow> Crash s)"

fun makeJobForAreasLoop :: "Env \<Rightarrow> string list \<Rightarrow> bool \<Rightarrow> State \<Rightarrow> bool outcome" where
  "makeJobForAreasLoop env [] hasNewFiles s = Return hasNewFiles s"
| "makeJobForAreasLoop env (area # rest) hasNewFiles s =
     (case makeJobForAreasBody env area hasNewFiles s of
        Return h s1 \<Rightarrow> makeJobForAreasLoop env rest h s1
      | Exit c s1 \<Rightarrow> Exit c s1
      | Crash s1 \<Rightarrow> Crash s1)"

definition makeJobForAreas :: "Env \<Rightarrow> State \<Rightarrow> unit outcome" where
  "makeJobForAreas env s =
     (case makeJobForAreasLoop env (areas (app s)) False s of
        Exit c s1 \<Rightarrow> Exit c s1
      | Crash s1 \<Rightarrow> Crash s1
      | Return hasNewFiles s1 \<Rightarrow>
          (if testMode (app s1) \<and> hasNewFiles then
             (let (now, s2) = time_Now env s1 in
              Return () (s2\<lparr>app := (app s2)\<lparr>testStartTime := now\<rparr>\<rparr>))
           else Return () s1))"

definition testTimeout :: int where
  "testTimeout = 2 * 60 * second_ns"

definition checkTestTimeout :: "Env \<Rightarrow> State \<Rightarrow> unit outcome" where
  "checkTestTimeout env s =
     (if \<not> testMode (app s) then Return () s
      else
        (let (now, s1) = time_Now env s in
         if now - testStartTime (app s1) > testTimeout then Exit 0 s1 else Return () s1))"

definition programLoop :: "Env \<Rightarrow> State \<Rightarrow> unit outcome" where
  "programLoop env s =
     (case makeJobForArchives env s of
        Exit c s1 \<Rightarrow> Exit c s1
      | Crash s1 \<Rightarrow> Crash s1
      | Return u s1 \<Rightarrow>
          (case makeJobForAreas env s1 of
             Exit c s2 \<Rightarrow> Exit c s2
           | Crash s2 \<Rightarrow> Crash s2
           | Return v s2 \<Rightarrow> checkTestTimeout env s2))"

text \<open>\<open>n\<close> runs of programLoop, as the ticker of \<open>run\<close> makes them one after the other.\<close>

fun programLoops :: "Env \<Rightarrow> nat \<Rightarrow> State \<Rightarrow> unit outcome" where
  "programLoops env 0 s = Return () s"
| "programLoops env (Suc n) s =
     (case programLoop env s of
        Return u s1 \<Rightarrow> programLoops env n s1
      | Exit c s1 \<Rightarrow> Exit c s1
      | Crash s1 \<Rightarrow> Crash s1)"

section \<open>Observing a call\<close>

text \<open>
  The state a call leaves behind, however it ends, and the events a state has beyond
  those of an earlier state.
\<close>

definition finalState :: "'a outcome \<Rightarrow> State" where
  "finalState out = (case out of Return v s \<Rightarrow> s | Exit c s \<Rightarrow> s | Crash s \<Rightarrow> s)"

definition newEvents :: "State \<Rightarrow> State \<Rightarrow> Event list" where
  "newEvents s s1 = drop (length (events s)) (events s1)"

text \<open>
  uploadFile in two parts, for the proofs: the state after the assignment of
  \<open>lastUploadTime\<close>, and the rest of the function from that state.
\<close>

definition recordUploadStart :: "Env \<Rightarrow> string \<Rightarrow> State \<Rightarrow> State" where
  "recordUploadStart env filePath s =
     (let s1 = waitForUploadThrottle env (emit (EvUploadFile filePath) s);
          (now, s2) = time_Now env s1
      in emit (EvUploadStart filePath now) (s2\<lparr>app := (app s2)\<lparr>lastUploadTime := Some now\<rparr>\<rparr>))"

definition sendFile :: "Env \<Rightarrow> string \<Rightarrow> State \<Rightarrow> bool outcome" where
  "sendFile env filePath s3 =
     (let (openErr, s4) = sysCall env s3
      in if openErr \<or> \<not> fileExistsIn (fsys s4) (tempDirectory (app s4)) filePath then Return True s4
         else
           (let (copyErr, s5) = sysCall env s4 in
            if copyErr then Return True s5
            else
              (let (reqErr, s6) = sysCall env s5 in
               if reqErr then Return True s6
               else
                 (let s7 = emit (EvHttpPost filePath) s6;
                      StatusCode = status env (steps s7);
                      (doErr, s8) = sysCall env s7
                  in if doErr then (if testMode (app s8) then Exit 1 s8 else Return True s8)
                     else
                       (let s9 = emit (EvHttpResponse filePath StatusCode) s8 in
                        if 200 \<le> StatusCode \<and> StatusCode < 300 then Return False s9
                        else if testMode (app s9) then Exit 1 s9
                        else Return True s9)))))"

fun isFound :: "Event \<Rightarrow> bool" where
  "isFound (EvFound a n) = True"
| "isFound e = False"

fun isStart :: "Event \<Rightarrow> bool" where
  "isStart (EvUploadStart p t) = True"
| "isStart e = False"

text \<open>
  \<open>emitsOnly P s s1\<close>: the log of \<open>s1\<close> is the log of \<open>s\<close> with more events, all of
  them in \<open>P\<close>. \<open>steady s s1\<close>: from \<open>s\<close> to \<open>s1\<close> no group was found, no upload
  start recorded, and \<open>lastUploadTime\<close> is unchanged.
\<close>

definition emitsOnly :: "(Event \<Rightarrow> bool) \<Rightarrow> State \<Rightarrow> State \<Rightarrow> bool" where
  "emitsOnly P s s1 = (\<exists>new. events s1 = events s @ new \<and> list_all P new)"

definition plain :: "Event \<Rightarrow> bool" where
  "plain e = (\<not> isFound e \<and> \<not> isStart e)"

definition steady :: "State \<Rightarrow> State \<Rightarrow> bool" where
  "steady s s1 = (emitsOnly plain s s1 \<and> lastUploadTime (app s1) = lastUploadTime (app s))"

fun startTime :: "Event \<Rightarrow> int list" where
  "startTime (EvUploadStart p t) = [t]"
| "startTime e = []"

definition starts :: "Event list \<Rightarrow> int list" where
  "starts es = concat (map startTime es)"

definition apart :: "int \<Rightarrow> int \<Rightarrow> bool" where
  "apart a b = (a + 120 * second_ns \<le> b)"

definition throttled :: "State \<Rightarrow> bool" where
  "throttled s =
     (sorted_wrt apart (starts (events s)) \<and>
      lastUploadTime (app s) =
        (if starts (events s) = [] then None else Some (last (starts (events s)))))"

definition notFound :: "Event \<Rightarrow> bool" where
  "notFound e = (\<not> isFound e)"

definition orderly :: "State \<Rightarrow> State \<Rightarrow> bool" where
  "orderly s s1 = (emitsOnly notFound s s1 \<and> (throttled s \<longrightarrow> throttled s1))"

section \<open>Concrete inputs\<close>

text \<open>A regular file entry, and a file system with one readable directory.\<close>

definition regularFile :: "string \<Rightarrow> DirEntry" where
  "regularFile n = \<lparr>Name = n, IsDir = False\<rparr>"

definition singleDir :: "string \<Rightarrow> DirEntry list \<Rightarrow> string option \<Rightarrow> FileSystem" where
  "singleDir d es wd = \<lparr>dirs = (\<lambda>x. if x = d then Some es else None), cwd = wd\<rparr>"

definition exampleConfig :: Config where
  "exampleConfig =
     \<lparr>Server = ''http://localhost:9999/mock-upload'', Username = ''test_user'',
      Password = ''test_pass'', CameraDirectory = ''cam'', ProcessedDirectory = ''processed'',
      Interval = 15, RequestedInterval = 15, Count = 3, Prefix = ''CI_'', Postfix = ''_TEST'',
      ArchiveMode = ''auto''\<rparr>"

definition exampleCam :: AstroCam where
  "exampleCam =
     \<lparr>config = exampleConfig, areas = [''064''], tempDirectory = ''/app/temp'',
      currentDir = ''/home/u'', lastUploadTime = None, useRAR = False, archiveExt = ''.zip'',
      zipCompressed = True, rarPath = [], testMode = False, testStartTime = 0,
      fitsExt = ''.fts''\<rparr>"

text \<open>A camera directory with two images of area 064, listed newest first.\<close>

definition twoImages :: FileSystem where
  "twoImages =
     singleDir ''cam''
       [regularFile ''064_2025-01-01_10-00-05.fts'', regularFile ''064_2025-01-01_09-59-55.fts'']
       (Some ''/home/u'')"


text \<open>
  The three images of the ordering example of the specification, in the order the
  specification lists them (not chronological).
\<close>

definition threeImages :: "DirEntry list" where
  "threeImages =
     [regularFile ''064_2025-01-01_10-00-00.fts'', regularFile ''064_2025-01-01_10-00-05.fts'',
      regularFile ''064_2025-01-01_09-59-55.fts'']"

text \<open>Two times five seconds apart.\<close>

definition tenOClock :: Civil where
  "tenOClock = \<lparr>year = 2025, month = 1, day = 1, hour = 10, minute = 0, second = 0\<rparr>"

definition fivePastTen :: Civil where
  "fivePastTen = \<lparr>year = 2025, month = 1, day = 1, hour = 10, minute = 0, second = 5\<rparr>"

text \<open>
  The three directories of a process: camera directory \<open>cam\<close>, processed directory
  \<open>processed\<close> and scratch directory \<open>/app/temp\<close>; a process at its start with the
  three images in the camera directory; and a later state of it, seven seconds after
  an upload attempt at time 0, with one archive left in the scratch directory.
\<close>

definition threeDirs :: "DirEntry list \<Rightarrow> DirEntry list \<Rightarrow> DirEntry list \<Rightarrow> FileSystem" where
  "threeDirs cam processed temp =
     \<lparr>dirs = (\<lambda>d. if d = ''cam'' then Some cam
                   else if d = ''processed'' then Some processed
                   else if d = ''/app/temp'' then Some temp else None),
      cwd = Some ''/home/u''\<rparr>"

definition startState :: State where
  "startState =
     \<lparr>app = exampleCam, fsys = threeDirs threeImages [] [], clock = 0, steps = 0, events = []\<rparr>"

definition pendingArchive :: string where
  "pendingArchive = ''/app/temp/2025-01-01_CI_064_100000_TEST.zip''"

definition pendingState :: State where
  "pendingState =
     \<lparr>app = exampleCam\<lparr>lastUploadTime := Some 0\<rparr>,
      fsys = threeDirs [] [] [regularFile ''2025-01-01_CI_064_100000_TEST.zip''],
      clock = 7 * second_ns, steps = 0, events = []\<rparr>"


definition lockedEnv :: Env where
  "lockedEnv = \<lparr>delay = (\<lambda>k. 0), fails = (\<lambda>k. True), status = (\<lambda>k. 200), civil = (\<lambda>t. tenOClock)\<rparr>"

definition serverErrorEnv :: Env where
  "serverErrorEnv = \<lparr>delay = (\<lambda>k. 0), fails = (\<lambda>k. False), status = (\<lambda>k. 500), civil = (\<lambda>t. tenOClock)\<rparr>"


text \<open>
  A wall clock that reads 10:00:00 when the monotonic clock is 0 (for the first hour),
  and an environment where every call succeeds and the server answers 200, except that
  the sixth interaction of the process fails: from \<open>startState\<close> that is the integrity
  test of the first archive, whose path is \<open>failedArchive\<close>.
\<close>

definition wallClock :: "int \<Rightarrow> Civil" where
  "wallClock t =
     tenOClock\<lparr>minute := nat (t div second_ns) div 60 mod 60, second := nat (t div second_ns) mod 60\<rparr>"

definition brokenTestEnv :: Env where
  "brokenTestEnv =
     \<lparr>delay = (\<lambda>k. 0), fails = (\<lambda>k. k = 5), status = (\<lambda>k. 200), civil = wallClock\<rparr>"

definition failedArchive :: string where
  "failedArchive = ''/app/temp/2025-01-01_CI_064_100005_TEST.zip''"

section \<open>Properties of the path functions\<close>


lemma splitSlash_nonempty: "splitSlash s \<noteq> []"
  by (induction s) (auto split: list.splits)

lemma splitSlash_noslash: "slash \<notin> set n \<Longrightarrow> splitSlash n = [n]"
  by (induction n) auto

lemma splitSlash_append: "slash \<notin> set n \<Longrightarrow> splitSlash (a @ slash # n) = splitSlash a @ [n]"
proof (induction a)
  case Nil
  then show ?case by (simp add: splitSlash_noslash)
next
  case (Cons c cs)
  then show ?case using splitSlash_nonempty [of cs]
    by (cases "splitSlash cs") auto
qed

lemma lastIs_split: 
  assumes "slash \<notin> set n" "lastIs n p" 
  shows "\<exists>es. splitSlash p = es @ [n]"
proof -
  from assms(2) obtain X where X: "p = X @ n" "X = [] \<or> last X = slash"
    by (auto simp: lastIs_def)
  show ?thesis
  proof (cases "X = []")
    case True
    with X assms(1) show ?thesis by (simp add: splitSlash_noslash)
  next
    case False
    with X obtain Y where "X = Y @ [slash]"
      by (metis append_butlast_last_id)
    with X assms(1) show ?thesis by (simp add: splitSlash_append)
  qed
qed

lemma cleanElems_last:
  "validName n \<Longrightarrow> \<exists>pre. cleanElems r out (es @ [n]) = pre @ [n]"
  by (induction es arbitrary: out) (auto simp: validName_def split: list.splits)

lemma joinSlash_last: "\<exists>Y. joinSlash (pre @ [n]) = Y @ n \<and> (Y = [] \<or> last Y = slash)"
proof (induction pre rule: joinSlash.induct)
  case 1
  then show ?case by simp
next
  case (2 x)
  have "joinSlash ([x] @ [n]) = (x @ [slash]) @ n" by simp
  then show ?case by (metis last_snoc snoc_eq_iff_butlast)
next
  case (3 x y ys)
  then obtain Y where Y: "joinSlash ((y # ys) @ [n]) = Y @ n" "Y = [] \<or> last Y = slash" by blast
  have "joinSlash ((x # y # ys) @ [n]) = (x @ [slash] @ Y) @ n" using Y by simp
  moreover have "last (x @ [slash] @ Y) = slash" using Y by auto
  ultimately show ?case by metis
qed

lemma lastIs_Clean:
  assumes "validName n" "lastIs n p"
  shows "lastIs n (filepath_Clean p)"
proof -
  from assms have ns: "slash \<notin> set n" "n \<noteq> []" by (auto simp: validName_def)
  from lastIs_split [OF ns(1) assms(2)] obtain es where es: "splitSlash p = es @ [n]" by blast
  from assms(2) ns have pne: "p \<noteq> []" by (auto simp: lastIs_def)
  obtain pre where pre: "cleanElems (hd p = slash) [] (es @ [n]) = pre @ [n]"
    using cleanElems_last [OF assms(1)] by blast
  obtain Y where Y: "joinSlash (pre @ [n]) = Y @ n" "Y = [] \<or> last Y = slash"
    using joinSlash_last by blast
  have "filepath_Clean p = ((if hd p = slash then [slash] else []) @ Y) @ n"
    using pne es pre Y ns by (simp add: filepath_Clean_def Let_def)
  moreover have "(if hd p = slash then [slash] else []) @ Y = [] \<or> last ((if hd p = slash then [slash] else []) @ Y) = slash"
    using Y by auto
  ultimately show ?thesis unfolding lastIs_def by blast
qed

lemma lastIs_self: "lastIs n n"
  by (simp add: lastIs_def)

lemma lastIs_Join:
  assumes "validName n" "lastIs n p"
  shows "lastIs n (filepath_Join a p)"
proof -
  from assms have pne: "p \<noteq> []" by (auto simp: lastIs_def validName_def)
  show ?thesis
  proof (cases "a = []")
    case True
    with pne assms show ?thesis by (simp add: filepath_Join_def lastIs_Clean)
  next
    case False
    from assms(2) obtain X where X: "p = X @ n" "X = [] \<or> last X = slash"
      by (auto simp: lastIs_def)
    have "a @ [slash] @ p = (a @ [slash] @ X) @ n" using X by simp
    moreover have "last (a @ [slash] @ X) = slash" using X by auto
    ultimately have "lastIs n (a @ [slash] @ p)" unfolding lastIs_def by blast
    with False assms(1) show ?thesis by (simp add: filepath_Join_def lastIs_Clean)
  qed
qed

lemma lastIs_Base:
  assumes "validName n" "lastIs n p"
  shows "filepath_Base p = n"
proof -
  from assms have ns: "slash \<notin> set n" "n \<noteq> []" by (auto simp: validName_def)
  from assms(2) obtain X where X: "p = X @ n" "X = [] \<or> last X = slash"
    by (auto simp: lastIs_def)
  have ln: "last n \<noteq> slash" using ns by (metis last_in_set)
  have hd: "hd (rev n) \<noteq> slash" using ln ns by (simp add: hd_rev)
  have d: "dropWhile (\<lambda>c. c = slash) (rev p) = rev p"
    using X hd ns by (cases "rev n") (auto)
  have t: "takeWhile (\<lambda>c. c \<noteq> slash) (rev n @ rev X) = rev n"
  proof (cases "X = []")
    case True
    then show ?thesis using ns by auto
  next
    case False
    with X have "hd (rev X) = slash" by (simp add: hd_rev)
    with False obtain zs where "rev X = slash # zs" by (cases "rev X") auto
    then have "takeWhile (\<lambda>c. c \<noteq> slash) (rev n @ rev X) =
               takeWhile (\<lambda>c. c \<noteq> slash) (rev n)"
      by (simp only: takeWhile_tail)
    also have "\<dots> = rev n" using ns by auto
    finally show ?thesis .
  qed
  show ?thesis using d t X ns by (simp add: filepath_Base_def Let_def)
qed

lemma Base_Join: "validName n \<Longrightarrow> filepath_Base (filepath_Join d n) = n"
  by (simp add: lastIs_Base lastIs_Join lastIs_self)

lemma lastIs_Abs:
  assumes "validName n" "lastIs n p"
  shows "lastIs n (case filepath_Abs wd p of Some a \<Rightarrow> a | None \<Rightarrow> p)"
  using assms by (auto simp: filepath_Abs_def lastIs_Clean lastIs_Join split: option.splits)


section \<open>Properties of the string and pattern functions\<close>





lemma Index_char_None: "c \<notin> set s \<Longrightarrow> strings_Index s [c] = None"
  by (induction s) auto


lemma LastIndex_char_None: "c \<notin> set s \<Longrightarrow> strings_LastIndex s [c] = None"
  by (induction s) auto

lemma LastIndex_char_Some:
  "c \<in> set s \<Longrightarrow>
   \<exists>j. strings_LastIndex s [c] = Some j \<and> j < length s \<and> s ! j = c \<and>
       (\<forall>k. j < k \<and> k < length s \<longrightarrow> s ! k \<noteq> c)"
proof (induction s)
  case Nil
  then show ?case by simp
next
  case (Cons x t)
  show ?case
  proof (cases "c \<in> set t")
    case True
    with Cons.IH obtain j where j: "strings_LastIndex t [c] = Some j" "j < length t" "t ! j = c"
      "\<forall>k. j < k \<and> k < length t \<longrightarrow> t ! k \<noteq> c" by blast
    have "\<forall>k. Suc j < k \<and> k < length (x # t) \<longrightarrow> (x # t) ! k \<noteq> c"
      using j(4) by (auto simp: nth_Cons split: nat.splits)
    with j show ?thesis by simp
  next
    case False
    with Cons.prems have xc: "x = c" by simp
    have "\<forall>k. 0 < k \<and> k < length (x # t) \<longrightarrow> (x # t) ! k \<noteq> c"
      using False by (auto simp: nth_Cons split: nat.splits)
    with xc False show ?thesis by (simp add: LastIndex_char_None)
  qed
qed


lemma LastIndex_char_ge:
  assumes "k < length s" "s ! k = c"
  shows "\<exists>j. strings_LastIndex s [c] = Some j \<and> k \<le> j \<and> j < length s"
proof -
  from assms have "c \<in> set s" by auto
  from LastIndex_char_Some [OF this] obtain j where j: "strings_LastIndex s [c] = Some j"
    "j < length s" "\<forall>k. j < k \<and> k < length s \<longrightarrow> s ! k \<noteq> c" by blast
  have "k \<le> j"
  proof (rule ccontr)
    assume "\<not> k \<le> j"
    then have "j < k" by simp
    with j(3) assms show False by blast
  qed
  with j show ?thesis by blast
qed


section \<open>The Area File Locator\<close>

lemma sort_Slice_mset: "sort_Slice key xs = Some ys \<Longrightarrow> mset ys = mset xs"
  by (auto simp: sort_Slice_def split: if_splits)

lemma fileBrowser_lastIs:
  assumes "fileBrowser fs area dir ext = Ok found" "validDir fs dir" "f \<in> set found"
  shows "\<exists>n. validName n \<and> lastIs n f \<and> regexMatchString area ext n"
proof -
  from assms(1) obtain es where es: "dirs fs dir = Some es"
    "found = map (\<lambda>e. filepath_Join dir (Name e))
               (filter (\<lambda>e. \<not> IsDir e \<and> regexMatchString area ext (Name e)) es)"
    by (auto simp: fileBrowser_def split: option.splits)
  with assms(3) obtain e where e: "e \<in> set es" "regexMatchString area ext (Name e)"
    "f = filepath_Join dir (Name e)" by auto
  from es(1) assms(2) e(1) have v: "validName (Name e)"
    by (auto simp: validDir_def list_all_iff)
  with e show ?thesis using lastIs_Join [OF v lastIs_self] by blast
qed

lemma getImageFiles_Ok:
  assumes "getImageFiles ac fs area = Ok fg"
  obtains found files where
    "fileBrowser fs area (CameraDirectory (config ac)) (fitsExt ac) = Ok found"
    "sort_Slice sortByNamePart found = Some files"
    "0 \<le> Count (config ac)"
    "FilesToArchive fg = map filepath_Base (take (nat (Count (config ac))) files)"
    "FilesToDelete fg =
       map (\<lambda>f. case filepath_Abs (cwd fs) f of Some a \<Rightarrow> a | None \<Rightarrow> f)
         (take (nat (Count (config ac))) files)"
proof -
  from assms obtain found where f: "fileBrowser fs area (CameraDirectory (config ac)) (fitsExt ac) = Ok found"
    by (auto simp: getImageFiles_def split: result.splits)
  with assms obtain files where s: "sort_Slice sortByNamePart found = Some files"
    by (auto simp: getImageFiles_def split: option.splits)
  from assms f s have c0: "0 \<le> Count (config ac)"
    by (auto simp: getImageFiles_def Let_def split: if_splits)
  from assms f s have fa: "FilesToArchive fg = map filepath_Base (take (nat (Count (config ac))) files)"
    by (auto simp: getImageFiles_def Let_def split: if_splits)
  from assms f s have fd: "FilesToDelete fg =
       map (\<lambda>f. case filepath_Abs (cwd fs) f of Some a \<Rightarrow> a | None \<Rightarrow> f)
         (take (nat (Count (config ac))) files)"
    by (auto simp: getImageFiles_def Let_def split: if_splits)
  from f s c0 fa fd that show thesis by blast
qed

lemma validDir_twoImages: "validDir twoImages ''cam''"
  by (simp add: twoImages_def singleDir_def validDir_def validName_def regularFile_def slash_def)





section \<open>The Batch Selector\<close>

text \<open>
  C9. In every FileGroup that getImageFiles returns, the two lists have the same length
  and the i-th archive member name is the base name of the i-th path to relocate.
\<close>

theorem getImageFiles_basenames:
  assumes "validDir fs (CameraDirectory (config ac))"
    and "getImageFiles ac fs area = Ok fg"
  shows "length (FilesToArchive fg) = length (FilesToDelete fg) \<and>
         (\<forall>i < length (FilesToArchive fg).
            FilesToArchive fg ! i = filepath_Base (FilesToDelete fg ! i))"
proof -
  from assms(2) obtain found files where
    f: "fileBrowser fs area (CameraDirectory (config ac)) (fitsExt ac) = Ok found"
    and s: "sort_Slice sortByNamePart found = Some files"
    and a: "FilesToArchive fg = map filepath_Base (take (nat (Count (config ac))) files)"
    and d: "FilesToDelete fg =
       map (\<lambda>f. case filepath_Abs (cwd fs) f of Some a \<Rightarrow> a | None \<Rightarrow> f)
         (take (nat (Count (config ac))) files)"
    by (rule getImageFiles_Ok)
  let ?sel = "take (nat (Count (config ac))) files"
  have len: "length (FilesToArchive fg) = length (FilesToDelete fg)"
    using a d by simp
  have "FilesToArchive fg ! i = filepath_Base (FilesToDelete fg ! i)"
    if i: "i < length (FilesToArchive fg)" for i
  proof -
    from i a have il: "i < length ?sel" by simp
    then have "?sel ! i \<in> set ?sel" by (rule nth_mem)
    then have "?sel ! i \<in> set files" by (rule in_set_takeD)
    moreover have "set files = set found" using sort_Slice_mset [OF s] by (rule mset_eq_setD)
    ultimately have "?sel ! i \<in> set found" by simp
    from fileBrowser_lastIs [OF f assms(1) this] obtain n where
      n: "validName n" "lastIs n (?sel ! i)" by blast
    have "filepath_Base (?sel ! i) = n" using n by (rule lastIs_Base)
    moreover have "filepath_Base (case filepath_Abs (cwd fs) (?sel ! i) of Some a \<Rightarrow> a | None \<Rightarrow> ?sel ! i) = n"
      using n(1) lastIs_Abs [OF n] by (rule lastIs_Base)
    ultimately show ?thesis using a d il by simp
  qed
  with len show ?thesis by blast
qed

theorem getImageFiles_basenames_witness:
  "validDir twoImages (CameraDirectory (config exampleCam)) \<and>
   getImageFiles exampleCam twoImages ''064'' =
     Ok \<lparr>FilesToArchive = [''064_2025-01-01_09-59-55.fts'', ''064_2025-01-01_10-00-05.fts''],
         FilesToDelete = [''/home/u/cam/064_2025-01-01_09-59-55.fts'',
                          ''/home/u/cam/064_2025-01-01_10-00-05.fts'']\<rparr> \<and>
   ''064_2025-01-01_09-59-55.fts'' = filepath_Base ''/home/u/cam/064_2025-01-01_09-59-55.fts'' \<and>
   ''064_2025-01-01_10-00-05.fts'' = filepath_Base ''/home/u/cam/064_2025-01-01_10-00-05.fts''"
proof -
  have v: "validDir twoImages (CameraDirectory (config exampleCam))"
    using validDir_twoImages by (simp add: exampleCam_def exampleConfig_def)
  have g: "getImageFiles exampleCam twoImages ''064'' =
     Ok \<lparr>FilesToArchive = [''064_2025-01-01_09-59-55.fts'', ''064_2025-01-01_10-00-05.fts''],
         FilesToDelete = [''/home/u/cam/064_2025-01-01_09-59-55.fts'',
                          ''/home/u/cam/064_2025-01-01_10-00-05.fts'']\<rparr>"
    by code_simp
  from getImageFiles_basenames [OF v g]
  have a: "\<forall>i < Suc (Suc 0).
             [''064_2025-01-01_09-59-55.fts'', ''064_2025-01-01_10-00-05.fts''] ! i =
             filepath_Base ([''/home/u/cam/064_2025-01-01_09-59-55.fts'',
                             ''/home/u/cam/064_2025-01-01_10-00-05.fts''] ! i)"
    by simp
  have "''064_2025-01-01_09-59-55.fts'' = filepath_Base ''/home/u/cam/064_2025-01-01_09-59-55.fts''"
    using a [rule_format, of 0] by simp
  moreover
  have "''064_2025-01-01_10-00-05.fts'' = filepath_Base ''/home/u/cam/064_2025-01-01_10-00-05.fts''"
    using a [rule_format, of "Suc 0"] by simp
  ultimately show ?thesis using v g by blast
qed

section \<open>The sort key of the Locator\<close>




section \<open>Ordering of the located files\<close>

lemma LastIndex_char_eqI:
  assumes "j < length s" "s ! j = c" "\<forall>k. j < k \<and> k < length s \<longrightarrow> s ! k \<noteq> c"
  shows "strings_LastIndex s [c] = Some j"
proof -
  from LastIndex_char_ge [OF assms(1,2)] obtain j' where
    j': "strings_LastIndex s [c] = Some j'" "j \<le> j'" "j' < length s" by blast
  from assms(1,2) have "c \<in> set s" by auto
  from LastIndex_char_Some [OF this] j'(1) have "s ! j' = c" by auto
  have "j' = j"
  proof (rule ccontr)
    assume "j' \<noteq> j"
    with j'(2) have "j < j'" by simp
    with assms(3) j'(3) have "s ! j' \<noteq> c" by blast
    with \<open>s ! j' = c\<close> show False by simp
  qed
  with j'(1) show ?thesis by simp
qed

lemma LastIndex_char_SomeD:
  assumes "strings_LastIndex s [c] = Some j"
  shows "j < length s \<and> s ! j = c \<and> (\<forall>k. j < k \<and> k < length s \<longrightarrow> s ! k \<noteq> c)"
proof -
  from assms have "c \<in> set s" using LastIndex_char_None by fastforce
  from LastIndex_char_Some [OF this] assms show ?thesis by auto
qed

lemma LastIndex_char_NoneD: "strings_LastIndex s [c] = None \<Longrightarrow> c \<notin> set s"
  using LastIndex_char_Some by fastforce

lemma LastIndex_drop:
  assumes "strings_LastIndex s [c] = Some j" "k \<le> j"
  shows "strings_LastIndex (drop k s) [c] = Some (j - k)"
proof (rule LastIndex_char_eqI)
  note d = LastIndex_char_SomeD [OF assms(1)]
  from d have "j < length s" by simp
  with assms(2) show "j - k < length (drop k s)" by simp
  from d assms(2) show "drop k s ! (j - k) = c" by simp
  show "\<forall>m. j - k < m \<and> m < length (drop k s) \<longrightarrow> drop k s ! m \<noteq> c"
  proof (intro allI impI)
    fix m assume m: "j - k < m \<and> m < length (drop k s)"
    then have "j < k + m" "k + m < length s" using assms(2) by auto
    with d have "s ! (k + m) \<noteq> c" by blast
    moreover from d assms(2) have "k \<le> length s" by simp
    ultimately show "drop k s ! m \<noteq> c" by simp
  qed
qed

lemma sortByNamePart_nameKey:
  "sortByNamePart p = None \<or> sortByNamePart p = Some (nameKey (filepath_Base p))"
proof (cases "strings_Index (filepath_Base p) ''_''")
  case None
  then show ?thesis by (simp add: sortByNamePart_def nameKey_def)
next
  case (Some pos)
  show ?thesis
  proof (cases "strings_LastIndex (filepath_Base p) ''.''")
    case None
    then have "CHR ''.'' \<notin> set (filepath_Base p)" by (rule LastIndex_char_NoneD)
    then have "CHR ''.'' \<notin> set (drop (pos + 1) (filepath_Base p))"
      by (meson in_set_dropD)
    then have "strings_LastIndex (drop (pos + 1) (filepath_Base p)) ''.'' = None"
      by (rule LastIndex_char_None)
    with Some None show ?thesis by (simp add: sortByNamePart_def nameKey_def)
  next
    case d: (Some lastDot)
    show ?thesis
    proof (cases "pos + 1 \<le> lastDot")
      case True
      from LastIndex_drop [OF d True] Some d True show ?thesis
        by (simp add: sortByNamePart_def nameKey_def)
    next
      case False
      with Some d show ?thesis by (simp add: sortByNamePart_def)
    qed
  qed
qed

lemma sort_Slice_sorted:
  assumes "sort_Slice key xs = Some ys"
  shows "sorted_wrt (\<lambda>a b. \<exists>ka kb. key a = Some ka \<and> key b = Some kb \<and> ka \<le> kb) ys"
proof (cases "length xs < 2")
  case True
  with assms have "ys = xs" by (simp add: sort_Slice_def)
  with True have "length ys < 2" by simp
  then have "ys = [] \<or> (\<exists>y. ys = [y])"
    by (cases ys) (auto simp: length_Suc_conv)
  then show ?thesis by auto
next
  case False
  with assms have k: "\<forall>f \<in> set xs. key f \<noteq> None" and y: "ys = sort_key (\<lambda>f. the (key f)) xs"
    by (auto simp: sort_Slice_def list_ex_iff split: if_splits)
  from y have "sorted (map (\<lambda>f. the (key f)) ys)" by simp
  then have s: "sorted_wrt (\<lambda>a b. the (key a) \<le> the (key b)) ys"
    by (simp add: sorted_map)
  from y have "set ys = set xs" by simp
  with k have kn: "\<forall>f \<in> set ys. key f \<noteq> None" by simp
  have "\<exists>ka kb. key a = Some ka \<and> key b = Some kb \<and> ka \<le> kb"
    if "a \<in> set ys" "b \<in> set ys" "the (key a) \<le> the (key b)" for a b
  proof -
    from kn that(1) obtain ka where ka: "key a = Some ka" by blast
    from kn that(2) obtain kb where kb: "key b = Some kb" by blast
    from ka kb that(3) show ?thesis by simp
  qed
  from sorted_wrt_mono_rel [of ys, OF this s] show ?thesis by simp
qed

lemma sortByNamePart_Base:
  assumes "validName n" "lastIs n f"
  shows "sortByNamePart (filepath_Base f) = sortByNamePart f"
proof -
  from assms have "filepath_Base f = n" by (rule lastIs_Base)
  moreover have "filepath_Base n = n" using assms(1) lastIs_self by (rule lastIs_Base)
  ultimately show ?thesis by (simp add: sortByNamePart_def)
qed

lemma getImageFiles_sorted:
  assumes v: "validDir fs (CameraDirectory (config ac))"
    and f: "fileBrowser fs area (CameraDirectory (config ac)) (fitsExt ac) = Ok found"
    and g: "getImageFiles ac fs area = Ok fg"
  shows "sorted_wrt keyLe (FilesToArchive fg) \<and>
         (\<exists>rest. mset (map filepath_Base found) = mset (FilesToArchive fg) + mset rest \<and>
                 (\<forall>a \<in> set (FilesToArchive fg). \<forall>r \<in> set rest. keyLe a r))"
proof -
  from g obtain found' files where
    f': "fileBrowser fs area (CameraDirectory (config ac)) (fitsExt ac) = Ok found'"
    and s: "sort_Slice sortByNamePart found' = Some files"
    and a: "FilesToArchive fg = map filepath_Base (take (nat (Count (config ac))) files)"
    by (rule getImageFiles_Ok)
  from f f' have [simp]: "found' = found" by simp
  let ?n = "nat (Count (config ac))"
  let ?P = "\<lambda>a b. \<exists>ka kb. sortByNamePart a = Some ka \<and> sortByNamePart b = Some kb \<and> ka \<le> kb"
  have ms: "mset files = mset found" using sort_Slice_mset [OF s] by simp
  then have st: "set files = set found" by (rule mset_eq_setD)
  have PQ: "keyLe (filepath_Base x) (filepath_Base y)"
    if "x \<in> set files" "y \<in> set files" "?P x y" for x y
  proof -
    from that st fileBrowser_lastIs [OF f v] obtain n m where
      "validName n" "lastIs n x" "validName m" "lastIs m y" by blast
    then have "sortByNamePart (filepath_Base x) = sortByNamePart x"
      "sortByNamePart (filepath_Base y) = sortByNamePart y"
      by (simp_all add: sortByNamePart_Base)
    with that(3) show ?thesis by (auto simp: keyLe_def)
  qed
  have "sorted_wrt ?P files" using sort_Slice_sorted [OF s] .
  then have sp: "sorted_wrt ?P (take ?n files @ drop ?n files)" by simp
  then have t: "sorted_wrt ?P (take ?n files)"
    and td: "\<forall>x \<in> set (take ?n files). \<forall>y \<in> set (drop ?n files). ?P x y"
    unfolding sorted_wrt_append by blast+
  have "sorted_wrt (\<lambda>x y. keyLe (filepath_Base x) (filepath_Base y)) (take ?n files)"
  proof (rule sorted_wrt_mono_rel [OF _ t])
    fix x y
    assume "x \<in> set (take ?n files)" "y \<in> set (take ?n files)" "?P x y"
    moreover from this have "x \<in> set files" "y \<in> set files" by (auto dest: in_set_takeD)
    ultimately show "keyLe (filepath_Base x) (filepath_Base y)" using PQ by blast
  qed
  then have 1: "sorted_wrt keyLe (FilesToArchive fg)"
    by (simp add: a sorted_wrt_map)
  have "mset (map filepath_Base found) = mset (map filepath_Base files)"
    using ms by simp
  also have "map filepath_Base files =
      map filepath_Base (take ?n files) @ map filepath_Base (drop ?n files)"
    by (simp flip: map_append)
  finally have 2: "mset (map filepath_Base found) =
      mset (FilesToArchive fg) + mset (map filepath_Base (drop ?n files))"
    by (simp add: a)
  have 3: "\<forall>a \<in> set (FilesToArchive fg). \<forall>r \<in> set (map filepath_Base (drop ?n files)). keyLe a r"
  proof (intro ballI)
    fix b r
    assume "b \<in> set (FilesToArchive fg)" "r \<in> set (map filepath_Base (drop ?n files))"
    then obtain x y where xy: "x \<in> set (take ?n files)" "b = filepath_Base x"
      "y \<in> set (drop ?n files)" "r = filepath_Base y"
      by (auto simp: a)
    from xy(1,3) td have "?P x y" by blast
    moreover from xy(1) have "x \<in> set files" by (rule in_set_takeD)
    moreover from xy(3) have "y \<in> set files" by (rule in_set_dropD)
    ultimately show "keyLe b r" using PQ xy(2,4) by blast
  qed
  from 1 2 3 show ?thesis by blast
qed

lemma three_found:
  assumes "mset es = mset threeImages"
  shows "fileBrowser (singleDir ''cam'' es wd) ''064'' ''cam'' ''.fts'' = Ok found \<Longrightarrow>
         mset found = mset [''cam/064_2025-01-01_10-00-00.fts'', ''cam/064_2025-01-01_10-00-05.fts'',
                            ''cam/064_2025-01-01_09-59-55.fts'']"
proof -
  assume f: "fileBrowser (singleDir ''cam'' es wd) ''064'' ''cam'' ''.fts'' = Ok found"
  let ?M = "\<lambda>e. \<not> IsDir e \<and> regexMatchString ''064'' ''.fts'' (Name e)"
  let ?J = "\<lambda>e. filepath_Join ''cam'' (Name e)"
  from f have "found = map ?J (filter ?M es)"
    by (simp add: fileBrowser_def singleDir_def)
  then have "mset found = image_mset ?J (filter_mset ?M (mset es))" by simp
  also have "\<dots> = image_mset ?J (filter_mset ?M (mset threeImages))" using assms by simp
  also have "\<dots> = mset (map ?J (filter ?M threeImages))" by simp
  also have "map ?J (filter ?M threeImages) =
     [''cam/064_2025-01-01_10-00-00.fts'', ''cam/064_2025-01-01_10-00-05.fts'',
      ''cam/064_2025-01-01_09-59-55.fts'']"
    by code_simp
  finally show ?thesis .
qed

lemma three_sorted:
  assumes "mset found = mset [''cam/064_2025-01-01_10-00-00.fts'', ''cam/064_2025-01-01_10-00-05.fts'',
                            ''cam/064_2025-01-01_09-59-55.fts'']"
  shows "sort_Slice sortByNamePart found =
           Some [''cam/064_2025-01-01_09-59-55.fts'', ''cam/064_2025-01-01_10-00-00.fts'',
                 ''cam/064_2025-01-01_10-00-05.fts'']"
proof -
  let ?a = "''cam/064_2025-01-01_10-00-00.fts''"
  let ?b = "''cam/064_2025-01-01_10-00-05.fts''"
  let ?c = "''cam/064_2025-01-01_09-59-55.fts''"
  have ka: "sortByNamePart ?a = Some ''2025-01-01_10-00-00''" by code_simp
  have kb: "sortByNamePart ?b = Some ''2025-01-01_10-00-05''" by code_simp
  have kc: "sortByNamePart ?c = Some ''2025-01-01_09-59-55''" by code_simp
  from assms have st: "set found = {?a, ?b, ?c}" by (metis mset_eq_setD list.simps(15) empty_set)
  from assms have "size (mset found) = 3" by simp
  then have len: "length found = 3" by simp
  have nn: "\<not> list_ex (\<lambda>f. sortByNamePart f = None) found"
    unfolding list_ex_iff st using ka kb kc by simp
  have inj: "inj_on (\<lambda>f. the (sortByNamePart f)) (set found)"
    unfolding st using ka kb kc by (simp add: inj_on_def)
  have srt: "sorted (map (\<lambda>f. the (sortByNamePart f)) [?c, ?a, ?b])"
    using ka kb kc by simp
  have ms: "mset found = mset [?c, ?a, ?b]" using assms by simp
  from sort_key_inj_key_eq [OF ms inj srt] len nn show ?thesis
    by (simp add: sort_Slice_def)
qed

lemma three_selected:
  assumes "mset es = mset threeImages"
  shows "\<exists>fg. getImageFiles exampleCam (singleDir ''cam'' es wd) ''064'' = Ok fg \<and>
           FilesToArchive fg =
             [''064_2025-01-01_09-59-55.fts'', ''064_2025-01-01_10-00-00.fts'',
              ''064_2025-01-01_10-00-05.fts'']"
proof -
  obtain found where f: "fileBrowser (singleDir ''cam'' es wd) ''064'' ''cam'' ''.fts'' = Ok found"
    by (simp add: fileBrowser_def singleDir_def)
  from three_sorted [OF three_found [OF assms f]]
  have s: "sort_Slice sortByNamePart found =
           Some [''cam/064_2025-01-01_09-59-55.fts'', ''cam/064_2025-01-01_10-00-00.fts'',
                 ''cam/064_2025-01-01_10-00-05.fts'']" .
  have b: "map filepath_Base [''cam/064_2025-01-01_09-59-55.fts'', ''cam/064_2025-01-01_10-00-00.fts'',
                 ''cam/064_2025-01-01_10-00-05.fts''] =
           [''064_2025-01-01_09-59-55.fts'', ''064_2025-01-01_10-00-00.fts'',
              ''064_2025-01-01_10-00-05.fts'']"
    by code_simp
  have c: "CameraDirectory (config exampleCam) = ''cam''" "fitsExt exampleCam = ''.fts''"
    "Count (config exampleCam) = 3"
    by (simp_all add: exampleCam_def exampleConfig_def)
  show ?thesis
    using f s b unfolding getImageFiles_def c by simp
qed

text \<open>
  C6. The files getImageFiles selects are in ascending order of the key of
  sortByNamePart, and every located file left out has a key that is not before the key
  of any selected file. Wherever it does not panic, the key is the part of the base name
  after the first \<open>_\<close> with the trailing extension removed (the whole base name when
  there is no \<open>_\<close>). The three images 10-00-00, 10-00-05 and 09-59-55 of area 064 are
  selected in chronological order whatever the order of the directory listing.
\<close>

theorem getImageFiles_ordering:
  "(validDir fs (CameraDirectory (config ac)) \<and>
    fileBrowser fs area (CameraDirectory (config ac)) (fitsExt ac) = Ok found \<and>
    getImageFiles ac fs area = Ok fg \<longrightarrow>
      sorted_wrt keyLe (FilesToArchive fg) \<and>
      (\<exists>rest. mset (map filepath_Base found) = mset (FilesToArchive fg) + mset rest \<and>
              (\<forall>a \<in> set (FilesToArchive fg). \<forall>r \<in> set rest. keyLe a r))) \<and>
   (sortByNamePart p = None \<or> sortByNamePart p = Some (nameKey (filepath_Base p))) \<and>
   (mset es = mset threeImages \<longrightarrow>
      (\<exists>sel. getImageFiles exampleCam (singleDir ''cam'' es wd) ''064'' = Ok sel \<and>
             FilesToArchive sel =
               [''064_2025-01-01_09-59-55.fts'', ''064_2025-01-01_10-00-00.fts'',
                ''064_2025-01-01_10-00-05.fts'']))"
  using getImageFiles_sorted [of fs ac area found fg] sortByNamePart_nameKey [of p]
    three_selected [of es wd]
  by blast

theorem getImageFiles_ordering_witness:
  "validDir (singleDir ''cam'' threeImages (Some ''/home/u'')) (CameraDirectory (config exampleCam)) \<and>
   fileBrowser (singleDir ''cam'' threeImages (Some ''/home/u'')) ''064''
       (CameraDirectory (config exampleCam)) (fitsExt exampleCam) =
     Ok [''cam/064_2025-01-01_10-00-00.fts'', ''cam/064_2025-01-01_10-00-05.fts'',
         ''cam/064_2025-01-01_09-59-55.fts''] \<and>
   getImageFiles exampleCam (singleDir ''cam'' threeImages (Some ''/home/u'')) ''064'' =
     Ok \<lparr>FilesToArchive = [''064_2025-01-01_09-59-55.fts'', ''064_2025-01-01_10-00-00.fts'',
                            ''064_2025-01-01_10-00-05.fts''],
         FilesToDelete = [''/home/u/cam/064_2025-01-01_09-59-55.fts'',
                          ''/home/u/cam/064_2025-01-01_10-00-00.fts'',
                          ''/home/u/cam/064_2025-01-01_10-00-05.fts'']\<rparr> \<and>
   sorted_wrt keyLe [''064_2025-01-01_09-59-55.fts'', ''064_2025-01-01_10-00-00.fts'',
                     ''064_2025-01-01_10-00-05.fts''] \<and>
   sortByNamePart ''cam/064_2025-01-01_10-00-00.fts'' =
     Some (nameKey (filepath_Base ''cam/064_2025-01-01_10-00-00.fts'')) \<and>
   nameKey (filepath_Base ''cam/064_2025-01-01_10-00-00.fts'') = ''2025-01-01_10-00-00'' \<and>
   mset (rev threeImages) = mset threeImages \<and>
   (\<exists>sel. getImageFiles exampleCam (singleDir ''cam'' (rev threeImages) None) ''064'' = Ok sel \<and>
          FilesToArchive sel =
            [''064_2025-01-01_09-59-55.fts'', ''064_2025-01-01_10-00-00.fts'',
             ''064_2025-01-01_10-00-05.fts''])"
proof -
  let ?fs = "singleDir ''cam'' threeImages (Some ''/home/u'')"
  let ?found = "[''cam/064_2025-01-01_10-00-00.fts'', ''cam/064_2025-01-01_10-00-05.fts'',
         ''cam/064_2025-01-01_09-59-55.fts'']"
  let ?fg = "\<lparr>FilesToArchive = [''064_2025-01-01_09-59-55.fts'', ''064_2025-01-01_10-00-00.fts'',
                            ''064_2025-01-01_10-00-05.fts''],
         FilesToDelete = [''/home/u/cam/064_2025-01-01_09-59-55.fts'',
                          ''/home/u/cam/064_2025-01-01_10-00-00.fts'',
                          ''/home/u/cam/064_2025-01-01_10-00-05.fts'']\<rparr>"
  have v: "validDir ?fs (CameraDirectory (config exampleCam))"
    by (simp add: exampleCam_def exampleConfig_def threeImages_def singleDir_def validDir_def
        validName_def regularFile_def slash_def)
  have f: "fileBrowser ?fs ''064'' (CameraDirectory (config exampleCam)) (fitsExt exampleCam) =
     Ok ?found"
    by code_simp
  have g: "getImageFiles exampleCam ?fs ''064'' = Ok ?fg"
    by code_simp
  have k: "sortByNamePart ''cam/064_2025-01-01_10-00-00.fts'' = Some ''2025-01-01_10-00-00''"
    by code_simp
  have n: "nameKey (filepath_Base ''cam/064_2025-01-01_10-00-00.fts'') = ''2025-01-01_10-00-00''"
    by code_simp
  have m: "mset (rev threeImages) = mset threeImages" by simp
  note t = getImageFiles_ordering [of ?fs exampleCam "''064''" ?found ?fg
      "''cam/064_2025-01-01_10-00-00.fts''" "rev threeImages" None]
  from t v f g have s: "sorted_wrt keyLe (FilesToArchive ?fg)" by blast
  from t m have e: "\<exists>sel. getImageFiles exampleCam (singleDir ''cam'' (rev threeImages) None) ''064'' = Ok sel \<and>
          FilesToArchive sel =
            [''064_2025-01-01_09-59-55.fts'', ''064_2025-01-01_10-00-00.fts'',
             ''064_2025-01-01_10-00-05.fts'']" by blast
  from s have s': "sorted_wrt keyLe [''064_2025-01-01_09-59-55.fts'', ''064_2025-01-01_10-00-00.fts'',
                     ''064_2025-01-01_10-00-05.fts'']" by simp
  from k n have kn: "sortByNamePart ''cam/064_2025-01-01_10-00-00.fts'' =
     Some (nameKey (filepath_Base ''cam/064_2025-01-01_10-00-00.fts''))" by simp
  from v f g s' kn n m e show ?thesis by blast
qed

lemma of_char_digit: "d < 10 \<Longrightarrow> of_char (digit d) = (48 + d :: nat)"
  by (simp add: digit_def)

lemma digit_less: "d < 10 \<Longrightarrow> e < 10 \<Longrightarrow> digit d < digit e \<longleftrightarrow> d < e"
  by (simp add: less_char_def of_char_digit)

lemma digit_eq: "d < 10 \<Longrightarrow> e < 10 \<Longrightarrow> digit d = digit e \<longleftrightarrow> d = e"
  by (metis of_char_digit add_left_cancel)

lemma digit_not_special:
  assumes "d < 10"
  shows "digit d \<noteq> CHR ''_'' \<and> digit d \<noteq> CHR ''-'' \<and> digit d \<noteq> slash"
proof -
  have n: "of_char (digit d) = (48 + d :: nat)" using assms by (rule of_char_digit)
  have "digit d \<noteq> CHR ''_''"
  proof
    assume "digit d = CHR ''_''"
    then have "of_char (digit d) = (of_char (CHR ''_'') :: nat)" by simp
    with n assms show False by simp
  qed
  moreover have "digit d \<noteq> CHR ''-''"
  proof
    assume "digit d = CHR ''-''"
    then have "of_char (digit d) = (of_char (CHR ''-'') :: nat)" by simp
    with n assms show False by simp
  qed
  moreover have "digit d \<noteq> slash"
  proof
    assume "digit d = slash"
    then have "of_char (digit d) = (of_char (CHR ''/'') :: nat)" by (simp add: slash_def)
    with n assms show False by simp
  qed
  ultimately show ?thesis by blast
qed

lemma length_digitsW [simp]: "length (digitsW w n) = w"
  by (induction w arbitrary: n) auto

lemma set_digitsW: "c \<in> set (digitsW w n) \<Longrightarrow> \<exists>d<10. c = digit d"
proof (induction w arbitrary: n)
  case 0
  then show ?case by simp
next
  case (Suc w)
  from Suc.prems have "c \<in> set (digitsW w (n div 10)) \<or> c = digit (n mod 10)" by auto
  then show ?case
  proof
    assume "c \<in> set (digitsW w (n div 10))"
    then show ?thesis by (rule Suc.IH)
  next
    assume "c = digit (n mod 10)"
    moreover have "n mod 10 < 10" by simp
    ultimately show ?thesis by blast
  qed
qed

lemma digitsW_plain:
  "CHR ''_'' \<notin> set (digitsW w n) \<and> CHR ''-'' \<notin> set (digitsW w n) \<and> slash \<notin> set (digitsW w n)"
proof -
  have "c \<noteq> CHR ''_'' \<and> c \<noteq> CHR ''-'' \<and> c \<noteq> slash" if "c \<in> set (digitsW w n)" for c
  proof -
    from set_digitsW [OF that] obtain d where "d < 10" "c = digit d" by blast
    then show ?thesis using digit_not_special by simp
  qed
  then show ?thesis by blast
qed

lemma less_append_same_length:
  fixes a b :: "'a::linorder list"
  shows "length a = length b \<Longrightarrow> (a @ c < b @ d) \<longleftrightarrow> (a < b \<or> (a = b \<and> c < d))"
  by (induction a b rule: list_induct2) auto

lemma lex10:
  "b < 10 \<Longrightarrow> d < 10 \<Longrightarrow>
   (10 * a + b < 10 * c + (d::nat)) \<longleftrightarrow> a < c \<or> (a = c \<and> b < d)"
  by arith

lemma divmod10_less:
  "(n::nat) < m \<longleftrightarrow> n div 10 < m div 10 \<or> (n div 10 = m div 10 \<and> n mod 10 < m mod 10)"
  using lex10 [of "n mod 10" "m mod 10" "n div 10" "m div 10"] by simp

lemma divmod10_eq: "(n::nat) = m \<longleftrightarrow> n div 10 = m div 10 \<and> n mod 10 = m mod 10"
  by (metis div_mult_mod_eq)

lemma div10_bound: "(n::nat) < 10 ^ Suc w \<Longrightarrow> n div 10 < 10 ^ w"
  by (simp add: less_mult_imp_div_less mult.commute)

lemma digitsW_eq:
  "n < 10 ^ w \<Longrightarrow> m < 10 ^ w \<Longrightarrow> digitsW w n = digitsW w m \<longleftrightarrow> n = m"
proof (induction w arbitrary: n m)
  case 0
  then show ?case by simp
next
  case (Suc w)
  from Suc.prems have b: "n div 10 < 10 ^ w" "m div 10 < 10 ^ w" by (simp_all only: div10_bound)
  have "digitsW (Suc w) n = digitsW (Suc w) m \<longleftrightarrow>
        digitsW w (n div 10) = digitsW w (m div 10) \<and> digit (n mod 10) = digit (m mod 10)"
    by simp
  also have "\<dots> \<longleftrightarrow> n div 10 = m div 10 \<and> n mod 10 = m mod 10"
    by (simp add: Suc.IH [OF b] digit_eq)
  also have "\<dots> \<longleftrightarrow> n = m" by (rule divmod10_eq [symmetric])
  finally show ?case .
qed

lemma digitsW_less:
  "n < 10 ^ w \<Longrightarrow> m < 10 ^ w \<Longrightarrow> digitsW w n < digitsW w m \<longleftrightarrow> n < m"
proof (induction w arbitrary: n m)
  case 0
  then show ?case by simp
next
  case (Suc w)
  from Suc.prems have b: "n div 10 < 10 ^ w" "m div 10 < 10 ^ w" by (simp_all only: div10_bound)
  have "digitsW (Suc w) n < digitsW (Suc w) m \<longleftrightarrow>
        digitsW w (n div 10) < digitsW w (m div 10) \<or>
        (digitsW w (n div 10) = digitsW w (m div 10) \<and> [digit (n mod 10)] < [digit (m mod 10)])"
    by (simp add: less_append_same_length)
  also have "\<dots> \<longleftrightarrow> n div 10 < m div 10 \<or> (n div 10 = m div 10 \<and> n mod 10 < m mod 10)"
    by (simp add: Suc.IH [OF b] digitsW_eq [OF b] digit_less)
  also have "\<dots> \<longleftrightarrow> n < m" by (rule divmod10_less [symmetric])
  finally show ?case .
qed

lemma digitsW_zero: "digitsW w 0 = replicate w (CHR ''0'')"
proof (induction w)
  case 0
  then show ?case by simp
next
  case (Suc w)
  have "digit 0 = CHR ''0''" by code_simp
  with Suc show ?case by (simp add: replicate_append_same)
qed

lemma decimal_digitsW:
  "0 < w \<Longrightarrow> n < 10 ^ w \<Longrightarrow>
   length (decimal n) \<le> w \<and>
   replicate (w - length (decimal n)) (CHR ''0'') @ decimal n = digitsW w n"
proof (induction w arbitrary: n)
  case 0
  then show ?case by simp
next
  case (Suc w)
  show ?case
  proof (cases "n < 10")
    case True
    then have "decimal n = [digit n]" by (simp add: decimal.simps)
    moreover from True have "n div 10 = 0" "n mod 10 = n" by simp_all
    ultimately show ?thesis by (simp add: digitsW_zero)
  next
    case False
    then have d: "decimal n = decimal (n div 10) @ [digit (n mod 10)]"
      by (subst decimal.simps) simp
    have w: "0 < w"
    proof (rule ccontr)
      assume "\<not> 0 < w"
      with Suc.prems(2) False show False by simp
    qed
    from Suc.prems(2) have "n div 10 < 10 ^ w" by (rule div10_bound)
    from Suc.IH [OF w this] have ih:
      "length (decimal (n div 10)) \<le> w"
      "replicate (w - length (decimal (n div 10))) (CHR ''0'') @ decimal (n div 10) =
         digitsW w (n div 10)" by simp_all
    from ih d show ?thesis by simp
  qed
qed

lemma appendInt_digitsW: "0 < w \<Longrightarrow> n < 10 ^ w \<Longrightarrow> appendInt n w = digitsW w n"
  using decimal_digitsW [of w n] by (simp add: appendInt_def)

lemma LastIndex_bound:
  "strings_LastIndex s sub = Some i \<Longrightarrow> i + length sub \<le> length s"
proof (induction s arbitrary: i)
  case Nil
  then show ?case by (simp split: if_splits)
next
  case (Cons c t)
  show ?case
  proof (cases "strings_LastIndex t sub")
    case None
    with Cons.prems have "prefix sub (c # t)" "i = 0" by (auto split: if_splits)
    then show ?thesis using prefix_length_le by fastforce
  next
    case (Some j)
    with Cons.prems have "i = Suc j" by simp
    with Cons.IH [OF Some] show ?thesis by simp
  qed
qed

lemma LastIndex_suffix: "strings_LastIndex (a @ sub) sub = Some (length a)"
proof (induction a)
  case Nil
  show ?case
  proof (cases sub)
    case Nil
    then show ?thesis by simp
  next
    case (Cons c t)
    have "strings_LastIndex t (c # t) = None"
    proof (rule ccontr)
      assume "strings_LastIndex t (c # t) \<noteq> None"
      then obtain i where "strings_LastIndex t (c # t) = Some i" by blast
      from LastIndex_bound [OF this] show False by simp
    qed
    with Cons show ?thesis by simp
  qed
next
  case (Cons x a)
  then show ?case by simp
qed

lemma Index_char_first: "c \<notin> set a \<Longrightarrow> strings_Index (a @ c # b) [c] = Some (length a)"
  by (induction a) auto

lemma LastIndex_char_last: "c \<notin> set b \<Longrightarrow> strings_LastIndex (a @ c # b) [c] = Some (length a)"
proof (rule LastIndex_char_eqI)
  assume c: "c \<notin> set b"
  show "length a < length (a @ c # b)" by simp
  show "(a @ c # b) ! length a = c" by simp
  show "\<forall>k. length a < k \<and> k < length (a @ c # b) \<longrightarrow> (a @ c # b) ! k \<noteq> c"
  proof (intro allI impI)
    fix k assume k: "length a < k \<and> k < length (a @ c # b)"
    then have "(a @ c # b) ! k = b ! (k - length a - 1)"
      by (simp add: nth_append nth_Cons')
    moreover from k have "k - length a - 1 < length b" by auto
    ultimately show "(a @ c # b) ! k \<noteq> c" using c by (metis nth_mem)
  qed
qed

lemma ReplaceAll_empty: "strings_ReplaceAll s c [] = filter (\<lambda>x. x \<noteq> c) s"
  by (induction s) (auto simp: strings_ReplaceAll_def)

lemma formatDate_digits:
  assumes "validCivil t"
  shows "formatDate t = digitsW 4 (year t) @ ''-'' @ digitsW 2 (month t) @ ''-'' @ digitsW 2 (day t)"
proof -
  from assms have "year t < 10 ^ 4" "month t < 10 ^ 2" "day t < 10 ^ 2"
    by (simp_all add: validCivil_def)
  then show ?thesis by (simp add: formatDate_def appendInt_digitsW)
qed

lemma formatTime_digits:
  assumes "validCivil t"
  shows "formatTime t = digitsW 2 (hour t) @ digitsW 2 (minute t) @ digitsW 2 (second t)"
proof -
  from assms have "hour t < 10 ^ 2" "minute t < 10 ^ 2" "second t < 10 ^ 2"
    by (simp_all add: validCivil_def)
  then show ?thesis by (simp add: formatTime_def appendInt_digitsW)
qed

lemma filter_digitsW:
  "filter (\<lambda>x. x \<noteq> CHR ''-'') (digitsW w n) = digitsW w n"
  "filter (\<lambda>x. x \<noteq> CHR ''_'') (digitsW w n) = digitsW w n"
  using digitsW_plain [of w n] by (auto simp: filter_id_conv)

lemma sortByArchiveName_archiveName:
  assumes v: "validCivil t"
    and ns: "slash \<notin> set (Prefix (config ac) @ area @ Postfix (config ac) @ archiveExt ac)"
  shows "sortByArchiveName ac (filepath_Join (tempDirectory ac) (archiveName ac area t)) = stampKey t"
proof -
  let ?D = "formatDate t" and ?T = "formatTime t"
  let ?P = "Prefix (config ac)" and ?X = "Postfix (config ac)" and ?E = "archiveExt ac"
  let ?stem = "?D @ ''_'' @ ?P @ area @ ''_'' @ ?T"
  let ?name = "archiveName ac area t"
  have nm: "?name = (?stem @ ?X) @ ?E" by (simp add: archiveName_def)
  have D: "?D = digitsW 4 (year t) @ ''-'' @ digitsW 2 (month t) @ ''-'' @ digitsW 2 (day t)"
    using v by (rule formatDate_digits)
  have T: "?T = digitsW 2 (hour t) @ digitsW 2 (minute t) @ digitsW 2 (second t)"
    using v by (rule formatTime_digits)
  have Du: "CHR ''_'' \<notin> set ?D" unfolding D using digitsW_plain by simp
  have Tu: "CHR ''_'' \<notin> set ?T" unfolding T using digitsW_plain by simp
  have Ds: "slash \<notin> set ?D" unfolding D using digitsW_plain by (simp add: slash_def)
  have Ts: "slash \<notin> set ?T" unfolding T using digitsW_plain by simp
  have len: "4 \<le> length ?name" unfolding nm D by simp
  have "slash \<notin> set ?name"
    using ns Ds Ts unfolding archiveName_def by (simp add: slash_def)
  moreover from len have "?name \<noteq> []" "?name \<noteq> ''.''" "?name \<noteq> ''..''" by auto
  ultimately have vn: "validName ?name" by (simp add: validName_def)
  have b: "filepath_Base (filepath_Join (tempDirectory ac) ?name) = ?name"
    using vn by (rule Base_Join)
  have 1: "strings_LastIndex ?name ?E = Some (length (?stem @ ?X))"
    unfolding nm by (rule LastIndex_suffix)
  have 2: "take (length (?stem @ ?X)) ?name = ?stem @ ?X" unfolding nm by simp
  have 3: "(if ?X \<noteq> [] then
              (case strings_LastIndex (?stem @ ?X) ?X of
                 Some pos \<Rightarrow> take pos (?stem @ ?X) | None \<Rightarrow> ?stem @ ?X)
            else ?stem @ ?X) = ?stem"
    by (simp add: LastIndex_suffix del: append_assoc)
  have s1: "?stem = ?D @ CHR ''_'' # (?P @ area @ ''_'' @ ?T)" by simp
  have s2: "?stem = (?D @ ''_'' @ ?P @ area) @ CHR ''_'' # ?T" by simp
  have 4: "strings_Index ?stem ''_'' = Some (length ?D)"
    by (subst s1) (rule Index_char_first [OF Du])
  have 5: "strings_LastIndex ?stem ''_'' = Some (length (?D @ ''_'' @ ?P @ area))"
    by (subst s2) (rule LastIndex_char_last [OF Tu])
  have 6: "take (length ?D) ?stem = ?D" by simp
  have 7: "drop (length (?D @ ''_'' @ ?P @ area)) ?stem = CHR ''_'' # ?T"
    by (subst s2) (simp del: append_assoc)
  have 8: "strings_ReplaceAll (strings_ReplaceAll (?D @ CHR ''_'' # ?T) (CHR ''-'') []) (CHR ''_'') [] =
           stampKey t"
    unfolding D T by (simp add: ReplaceAll_empty filter_digitsW stampKey_def)
  show ?thesis
    unfolding sortByArchiveName_def b Let_def 1 option.case 2 3 4 5 6 7 8 ..
qed

lemma stampKey_less:
  assumes "validCivil a" "validCivil b"
  shows "stampKey a < stampKey b \<longleftrightarrow> chronoLess a b"
proof -
  from assms have ba: "year a < 10 ^ 4" "month a < 10 ^ 2" "day a < 10 ^ 2" "hour a < 10 ^ 2"
    "minute a < 10 ^ 2" "second a < 10 ^ 2"
    and bb: "year b < 10 ^ 4" "month b < 10 ^ 2" "day b < 10 ^ 2" "hour b < 10 ^ 2"
    "minute b < 10 ^ 2" "second b < 10 ^ 2"
    by (simp_all add: validCivil_def)
  note le = digitsW_less [OF ba(1) bb(1)] digitsW_less [OF ba(2) bb(2)] digitsW_less [OF ba(3) bb(3)]
    digitsW_less [OF ba(4) bb(4)] digitsW_less [OF ba(5) bb(5)] digitsW_less [OF ba(6) bb(6)]
  note eq = digitsW_eq [OF ba(1) bb(1)] digitsW_eq [OF ba(2) bb(2)] digitsW_eq [OF ba(3) bb(3)]
    digitsW_eq [OF ba(4) bb(4)] digitsW_eq [OF ba(5) bb(5)] digitsW_eq [OF ba(6) bb(6)]
  show ?thesis
    unfolding stampKey_def chronoLess_def
    by (simp only: less_append_same_length length_digitsW le eq)
qed

lemma stampKey_eq:
  assumes "validCivil a" "validCivil b"
  shows "stampKey a = stampKey b \<longleftrightarrow> sameStamp a b"
proof -
  from assms have ba: "year a < 10 ^ 4" "month a < 10 ^ 2" "day a < 10 ^ 2" "hour a < 10 ^ 2"
    "minute a < 10 ^ 2" "second a < 10 ^ 2"
    and bb: "year b < 10 ^ 4" "month b < 10 ^ 2" "day b < 10 ^ 2" "hour b < 10 ^ 2"
    "minute b < 10 ^ 2" "second b < 10 ^ 2"
    by (simp_all add: validCivil_def)
  note eq = digitsW_eq [OF ba(1) bb(1)] digitsW_eq [OF ba(2) bb(2)] digitsW_eq [OF ba(3) bb(3)]
    digitsW_eq [OF ba(4) bb(4)] digitsW_eq [OF ba(5) bb(5)] digitsW_eq [OF ba(6) bb(6)]
  show ?thesis
    unfolding stampKey_def sameStamp_def
    by (simp add: eq)
qed

text \<open>
  C7. For archive names the Namer produced from times with a four-digit year, with any
  areas and the configured prefix, postfix and extension (none holding a path
  separator), the key of sortByArchiveName is the fourteen digits YYYYMMDDHHMMSS of the
  time: two keys are in the order \<open><\<close> exactly when the times are in chronological
  order, and are equal exactly when date and time of day are the same.
\<close>

theorem sortByArchiveName_chronological:
  assumes "validCivil t1" and "validCivil t2"
    and "slash \<notin> set (Prefix (config ac) @ a1 @ Postfix (config ac) @ archiveExt ac)"
    and "slash \<notin> set (Prefix (config ac) @ a2 @ Postfix (config ac) @ archiveExt ac)"
  shows "sortByArchiveName ac (filepath_Join (tempDirectory ac) (archiveName ac a1 t1)) = stampKey t1 \<and>
         (sortByArchiveName ac (filepath_Join (tempDirectory ac) (archiveName ac a1 t1)) <
          sortByArchiveName ac (filepath_Join (tempDirectory ac) (archiveName ac a2 t2))
            \<longleftrightarrow> chronoLess t1 t2) \<and>
         (sortByArchiveName ac (filepath_Join (tempDirectory ac) (archiveName ac a1 t1)) =
          sortByArchiveName ac (filepath_Join (tempDirectory ac) (archiveName ac a2 t2))
            \<longleftrightarrow> sameStamp t1 t2)"
  using sortByArchiveName_archiveName [OF assms(1,3)] sortByArchiveName_archiveName [OF assms(2,4)]
    stampKey_less [OF assms(1,2)] stampKey_eq [OF assms(1,2)]
  by simp

theorem sortByArchiveName_chronological_witness:
  "validCivil tenOClock \<and> validCivil fivePastTen \<and>
   slash \<notin> set (Prefix (config exampleCam) @ ''064'' @ Postfix (config exampleCam) @
                 archiveExt exampleCam) \<and>
   slash \<notin> set (Prefix (config exampleCam) @ ''091'' @ Postfix (config exampleCam) @
                 archiveExt exampleCam) \<and>
   archiveName exampleCam ''064'' tenOClock = ''2025-01-01_CI_064_100000_TEST.zip'' \<and>
   sortByArchiveName exampleCam
     (filepath_Join (tempDirectory exampleCam) (archiveName exampleCam ''064'' tenOClock)) =
     ''20250101100000'' \<and>
   chronoLess tenOClock fivePastTen \<and>
   sortByArchiveName exampleCam
     (filepath_Join (tempDirectory exampleCam) (archiveName exampleCam ''064'' tenOClock)) <
   sortByArchiveName exampleCam
     (filepath_Join (tempDirectory exampleCam) (archiveName exampleCam ''091'' fivePastTen))"
proof -
  have v1: "validCivil tenOClock" by (simp add: validCivil_def tenOClock_def)
  have v2: "validCivil fivePastTen" by (simp add: validCivil_def fivePastTen_def)
  have s1: "slash \<notin> set (Prefix (config exampleCam) @ ''064'' @ Postfix (config exampleCam) @
                 archiveExt exampleCam)"
    by (simp add: exampleCam_def exampleConfig_def slash_def)
  have s2: "slash \<notin> set (Prefix (config exampleCam) @ ''091'' @ Postfix (config exampleCam) @
                 archiveExt exampleCam)"
    by (simp add: exampleCam_def exampleConfig_def slash_def)
  have n: "archiveName exampleCam ''064'' tenOClock = ''2025-01-01_CI_064_100000_TEST.zip''"
    by code_simp
  have k: "stampKey tenOClock = ''20250101100000''" by code_simp
  have c: "chronoLess tenOClock fivePastTen"
    by (simp add: chronoLess_def tenOClock_def fivePastTen_def)
  note t = sortByArchiveName_chronological [OF v1 v2 s1 s2]
  from t k have a: "sortByArchiveName exampleCam
     (filepath_Join (tempDirectory exampleCam) (archiveName exampleCam ''064'' tenOClock)) =
     ''20250101100000''" by simp
  from t c have b: "sortByArchiveName exampleCam
     (filepath_Join (tempDirectory exampleCam) (archiveName exampleCam ''064'' tenOClock)) <
   sortByArchiveName exampleCam
     (filepath_Join (tempDirectory exampleCam) (archiveName exampleCam ''091'' fivePastTen))"
    by blast
  from v1 v2 s1 s2 n a c b show ?thesis by blast
qed

section \<open>Relocation, delivery and throttle\<close>

lemma app_tick [simp]: "app (tick env s) = app s"
  by (simp add: tick_def)

lemma app_emit [simp]: "app (emit e s) = app s"
  by (simp add: emit_def)

lemma snd_sysCall [simp]: "snd (sysCall env s) = tick env s"
  by (simp add: sysCall_def)

lemma fst_sysCall [simp]: "fst (sysCall env s) = fails env (steps s)"
  by (simp add: sysCall_def)

lemma app_time_Sleep [simp]: "app (time_Sleep env d s) = app s"
  by (simp add: time_Sleep_def Let_def)

lemma app_moveFile [simp]: "app (snd (moveFile env a f s)) = app s"
  by (simp add: moveFile_def Let_def split_beta)

lemma app_moveFiles [simp]: "app (snd (moveFiles env a fs s)) = app s"
  by (induction fs arbitrary: s) (simp_all add: Let_def split_beta)

lemma moveFiles_subseq: "subseq (fst (moveFiles env a fs s)) fs"
  by (induction fs arbitrary: s) (auto simp: Let_def split_beta)

lemma moveImages_unrolled:
  "moveImages env files s =
     (let (failed1, s1) = moveFiles env 1 files s in
      if failed1 = [] then Return False s1
      else
        (let (failed2, s2) = moveFiles env 2 failed1 (time_Sleep env (3 * second_ns) s1) in
         if failed2 = [] then Return False s2
         else if testMode (app s) then Exit 1 s2
         else Return False s2))"
proof -
  have 2: "moveAttempts env 2 fl t =
      (let (failed2, s2) = moveFiles env 2 fl t in
         if failed2 = [] then Return False s2
         else if testMode (app t) then Exit 1 s2
         else Return False s2)" for fl t
    by (subst moveAttempts.simps) (simp add: maxRetries_def Let_def split_beta)
  have 1: "moveAttempts env 1 files s =
      (let (failed1, s1) = moveFiles env 1 files s in
       if failed1 = [] then Return False s1
       else moveAttempts env 2 failed1 (time_Sleep env retryDelay s1))"
    by (subst moveAttempts.simps) (simp add: maxRetries_def Let_def split_beta numeral_2_eq_2)
  show ?thesis
    unfolding moveImages_def 1 2 by (simp add: Let_def split_beta retryDelay_def)
qed

text \<open>
  C8. moveImages makes at most two passes: the first over all the files; when some
  failed, a sleep of 3 seconds and a second pass over the failed files only (a
  subsequence of the input). After the last pass it returns no error, except that in
  test mode a remaining failure ends the process with exit code 1. So in production
  mode it returns, and returns no error, whatever fails.
\<close>

theorem moveImages_production:
  "moveImages env files s =
     (let (failed1, s1) = moveFiles env 1 files s in
      if failed1 = [] then Return False s1
      else
        (let (failed2, s2) = moveFiles env 2 failed1 (time_Sleep env (3 * second_ns) s1) in
         if failed2 = [] then Return False s2
         else if testMode (app s) then Exit 1 s2
         else Return False s2)) \<and>
   subseq (fst (moveFiles env 1 files s)) files \<and>
   (\<not> testMode (app s) \<longrightarrow> (\<exists>s1. moveImages env files s = Return False s1))"
proof (intro conjI impI)
  show "moveImages env files s =
     (let (failed1, s1) = moveFiles env 1 files s in
      if failed1 = [] then Return False s1
      else
        (let (failed2, s2) = moveFiles env 2 failed1 (time_Sleep env (3 * second_ns) s1) in
         if failed2 = [] then Return False s2
         else if testMode (app s) then Exit 1 s2
         else Return False s2))"
    by (rule moveImages_unrolled)
  show "\<exists>s1. moveImages env files s = Return False s1" if "\<not> testMode (app s)"
    unfolding moveImages_unrolled using that by (simp add: Let_def split_beta)
  show "subseq (fst (moveFiles env 1 files s)) files" by (rule moveFiles_subseq)
qed

lemma events_tick [simp]: "events (tick env s) = events s"
  by (simp add: tick_def)

lemma events_emit [simp]: "events (emit e s) = events s @ [e]"
  by (simp add: emit_def)

lemma events_time_Sleep [simp]: "events (time_Sleep env d s) = events s @ [EvSleep d]"
  by (simp add: time_Sleep_def Let_def)

lemma fsys_tick [simp]: "fsys (tick env s) = fsys s"
  by (simp add: tick_def)

lemma fsys_emit [simp]: "fsys (emit e s) = fsys s"
  by (simp add: emit_def)

lemma fsys_time_Sleep [simp]: "fsys (time_Sleep env d s) = fsys s"
  by (simp add: time_Sleep_def Let_def)

lemma snd_time_Now [simp]: "snd (time_Now env s) = tick env s"
  by (simp add: time_Now_def Let_def)

lemma fst_time_Now [simp]: "fst (time_Now env s) = clock (tick env s)"
  by (simp add: time_Now_def Let_def)

lemma app_waitForUploadThrottle [simp]: "app (waitForUploadThrottle env s) = app s"
  by (simp add: waitForUploadThrottle_def Let_def split_beta split: option.splits)

lemma fsys_waitForUploadThrottle [simp]: "fsys (waitForUploadThrottle env s) = fsys s"
  by (simp add: waitForUploadThrottle_def Let_def split_beta split: option.splits)

text \<open>The events of the throttle: nothing, or one sleep.\<close>

lemma events_waitForUploadThrottle:
  "events (waitForUploadThrottle env s) = events s \<or>
   (\<exists>d. events (waitForUploadThrottle env s) = events s @ [EvSleep d])"
  by (simp add: waitForUploadThrottle_def Let_def split_beta split: option.splits)

lemma newEvents_append [simp]: "newEvents s (s1\<lparr>events := events s @ es\<rparr>) = es"
  by (simp add: newEvents_def)


lemma newEvents_eq: "events s1 = events s @ es \<Longrightarrow> newEvents s s1 = es"
  by (simp add: newEvents_def)

lemma events_deleteFile [simp]:
  "events (snd (deleteFile env p s)) = events s @ [EvDeleteFile p]"
  by (simp add: deleteFile_def Let_def split_beta)



lemma uploadFile_parts: "uploadFile env p s = sendFile env p (recordUploadStart env p s)"
  by (simp add: uploadFile_def sendFile_def recordUploadStart_def Let_def split_beta)

lemma clock_tick: "clock s \<le> clock (tick env s)"
  by (simp add: tick_def)

lemma clock_emit [simp]: "clock (emit e s) = clock s"
  by (simp add: emit_def)

lemma clock_time_Sleep: "clock s + d \<le> clock (time_Sleep env d s)"
  by (simp add: time_Sleep_def Let_def tick_def)

lemma clock_waitForUploadThrottle:
  assumes "lastUploadTime (app s) = Some t0"
  shows "t0 + uploadThrottleDelay \<le> clock (waitForUploadThrottle env s)"
proof -
  let ?now = "clock (tick env s)"
  show ?thesis
  proof (cases "?now - t0 < uploadThrottleDelay")
    case True
    then have "waitForUploadThrottle env s =
        time_Sleep env (uploadThrottleDelay - (?now - t0)) (tick env s)"
      using assms by (simp add: waitForUploadThrottle_def Let_def split_beta)
    moreover have "?now + (uploadThrottleDelay - (?now - t0)) \<le>
        clock (time_Sleep env (uploadThrottleDelay - (?now - t0)) (tick env s))"
      by (rule clock_time_Sleep)
    ultimately show ?thesis by simp
  next
    case False
    then have "waitForUploadThrottle env s = tick env s"
      using assms by (simp add: waitForUploadThrottle_def Let_def split_beta)
    with False show ?thesis by simp
  qed
qed

lemma recordUploadStart_time:
  "lastUploadTime (app (recordUploadStart env p s)) = Some (clock (recordUploadStart env p s))"
  by (simp add: recordUploadStart_def Let_def split_beta emit_def)

lemma recordUploadStart_gap:
  assumes "lastUploadTime (app s) = Some t0"
  shows "t0 + uploadThrottleDelay \<le> clock (recordUploadStart env p s)"
proof -
  let ?w = "waitForUploadThrottle env (emit (EvUploadFile p) s)"
  have "t0 + uploadThrottleDelay \<le> clock ?w"
    using assms by (intro clock_waitForUploadThrottle) simp
  also have "\<dots> \<le> clock (tick env ?w)" by (rule clock_tick)
  also have "\<dots> = clock (recordUploadStart env p s)"
    by (simp add: recordUploadStart_def Let_def split_beta emit_def)
  finally show ?thesis .
qed

lemma recordUploadStart_events:
  "\<exists>pre. events (recordUploadStart env p s) =
           events s @ EvUploadFile p # pre @ [EvUploadStart p (clock (recordUploadStart env p s))] \<and>
         set pre \<subseteq> range EvSleep \<and> (lastUploadTime (app s) = None \<longrightarrow> pre = [])"
proof -
  let ?w = "waitForUploadThrottle env (emit (EvUploadFile p) s)"
  have c: "clock (recordUploadStart env p s) = clock (tick env ?w)"
    by (simp add: recordUploadStart_def Let_def split_beta emit_def)
  have e: "events (recordUploadStart env p s) = events ?w @ [EvUploadStart p (clock (tick env ?w))]"
    by (simp add: recordUploadStart_def Let_def split_beta)
  show ?thesis
  proof (cases "lastUploadTime (app s)")
    case None
    then have "?w = emit (EvUploadFile p) s" by (simp add: waitForUploadThrottle_def)
    with e c None show ?thesis by simp
  next
    case (Some t0)
    from events_waitForUploadThrottle [of env "emit (EvUploadFile p) s"]
    obtain pre where "events ?w = events s @ EvUploadFile p # pre" "set pre \<subseteq> range EvSleep"
      by auto
    with e c Some show ?thesis by simp
  qed
qed

lemma sendFile_frame:
  "app (finalState (sendFile env p s3)) = app s3 \<and>
   (\<exists>tail. events (finalState (sendFile env p s3)) = events s3 @ tail \<and>
      (tail = [] \<or> tail = [EvHttpPost p] \<or> (\<exists>c. tail = [EvHttpPost p, EvHttpResponse p c])))"
  by (simp add: sendFile_def Let_def split_beta finalState_def)

lemma uploadFile_throttle_step:
  "(lastUploadTime (app s) = Some t0 \<longrightarrow>
      (\<exists>t1. lastUploadTime (app (finalState (uploadFile env p s))) = Some t1 \<and>
            t0 + 120 * second_ns \<le> t1)) \<and>
   (lastUploadTime (app s) = None \<longrightarrow>
      (\<forall>d. EvSleep d \<notin> set (newEvents s (finalState (uploadFile env p s))))) \<and>
   (\<exists>pre t post.
      newEvents s (finalState (uploadFile env p s)) = pre @ EvUploadStart p t # post \<and>
      lastUploadTime (app (finalState (uploadFile env p s))) = Some t \<and>
      (\<forall>q. EvHttpPost q \<notin> set pre) \<and>
      (\<forall>q u. EvUploadStart q u \<notin> set pre \<and> EvUploadStart q u \<notin> set post))"
proof -
  let ?r = "recordUploadStart env p s"
  let ?f = "finalState (uploadFile env p s)"
  from sendFile_frame [of env p ?r] obtain tail where
    a: "app ?f = app ?r" and e: "events ?f = events ?r @ tail"
    and t: "tail = [] \<or> tail = [EvHttpPost p] \<or> (\<exists>c. tail = [EvHttpPost p, EvHttpResponse p c])"
    unfolding uploadFile_parts by blast
  from recordUploadStart_events [of env p s] obtain pre where
    r: "events ?r = events s @ EvUploadFile p # pre @ [EvUploadStart p (clock ?r)]"
    and p: "set pre \<subseteq> range EvSleep" and n: "lastUploadTime (app s) = None \<longrightarrow> pre = []"
    by (elim exE conjE)
  have l: "lastUploadTime (app ?f) = Some (clock ?r)"
    using a recordUploadStart_time [of env p s] by simp
  have ne: "newEvents s ?f = (EvUploadFile p # pre) @ EvUploadStart p (clock ?r) # tail"
    by (rule newEvents_eq) (simp add: e r)
  have 1: "\<exists>t1. lastUploadTime (app ?f) = Some t1 \<and> t0 + 120 * second_ns \<le> t1"
    if "lastUploadTime (app s) = Some t0"
    using recordUploadStart_gap [OF that, of env p] l by (simp add: uploadThrottleDelay_def)
  have 2: "\<forall>d. EvSleep d \<notin> set (newEvents s ?f)" if "lastUploadTime (app s) = None"
    using that n t by (auto simp: ne)
  have 3: "(\<forall>q. EvHttpPost q \<notin> set (EvUploadFile p # pre)) \<and>
      (\<forall>q u. EvUploadStart q u \<notin> set (EvUploadFile p # pre) \<and> EvUploadStart q u \<notin> set tail)"
    using p t by auto
  from 1 2 3 ne l show ?thesis by blast
qed

theorem moveImages_production_witness:
  "\<not> testMode (app startState) \<and>
   (\<exists>s1. moveImages lockedEnv [''/home/u/cam/064_2025-01-01_09-59-55.fts''] startState =
            Return False s1)"
proof -
  have p: "\<not> testMode (app startState)"
    by (simp add: startState_def exampleCam_def)
  from moveImages_production [of lockedEnv "[''/home/u/cam/064_2025-01-01_09-59-55.fts'']" startState] p
  show ?thesis by blast
qed


section \<open>Batch completeness and the re-delivery of a failed archive\<close>



text \<open>
  C2, evaluated on the code. In production mode, with three images of area 064 and batch
  size 3, the integrity test of the new archive fails: packImagesForArea returns ERROR
  and the archive stays in the scratch directory. The next run of programLoop finds it
  in its re-delivery scan, uploads it and, the server answering 200, deletes it.
\<close>

theorem failed_archive_redelivered:
  "(case packImagesForArea brokenTestEnv ''064'' startState of
      Return r s1 \<Rightarrow>
        r = (ERROR, True) \<and>
        events s1 =
          [EvFound ''064'' 3, EvSleep (5 * second_ns),
           EvCreateArchive failedArchive
             [''064_2025-01-01_09-59-55.fts'', ''064_2025-01-01_10-00-00.fts'',
              ''064_2025-01-01_10-00-05.fts''],
           EvTestArchive failedArchive] \<and>
        fileExistsIn (fsys s1) ''/app/temp'' failedArchive
    | Exit c s1 \<Rightarrow> False
    | Crash s1 \<Rightarrow> False) \<and>
   (case programLoops brokenTestEnv 2 startState of
      Return u s2 \<Rightarrow>
        take 9 (events s2) =
          [EvFound ''064'' 3, EvSleep (5 * second_ns),
           EvCreateArchive failedArchive
             [''064_2025-01-01_09-59-55.fts'', ''064_2025-01-01_10-00-00.fts'',
              ''064_2025-01-01_10-00-05.fts''],
           EvTestArchive failedArchive,
           EvUploadFile failedArchive,
           EvUploadStart failedArchive (5 * second_ns),
           EvHttpPost failedArchive,
           EvHttpResponse failedArchive 200,
           EvDeleteFile failedArchive] \<and>
        \<not> fileExistsIn (fsys s2) ''/app/temp'' failedArchive
    | Exit c s2 \<Rightarrow> False
    | Crash s2 \<Rightarrow> False)"
  by code_simp



lemma emitsOnly_refl [simp]: "emitsOnly P s s"
  by (simp add: emitsOnly_def)

lemma emitsOnly_trans: "emitsOnly P s s1 \<Longrightarrow> emitsOnly P s1 s2 \<Longrightarrow> emitsOnly P s s2"
  by (auto simp: emitsOnly_def)

lemma emitsOnly_mono: "emitsOnly P s s1 \<Longrightarrow> (\<And>e. P e \<Longrightarrow> Q e) \<Longrightarrow> emitsOnly Q s s1"
  by (auto simp: emitsOnly_def list_all_iff)

lemma emitsOnly_same: "events s1 = events s \<Longrightarrow> emitsOnly P s s1"
  by (simp add: emitsOnly_def)

lemma emitsOnly_one: "events s1 = events s @ [e] \<Longrightarrow> P e \<Longrightarrow> emitsOnly P s s1"
  by (simp add: emitsOnly_def)

lemma steady_refl [simp]: "steady s s"
  by (simp add: steady_def)

lemma steady_trans: "steady s s1 \<Longrightarrow> steady s1 s2 \<Longrightarrow> steady s s2"
  by (auto simp: steady_def intro: emitsOnly_trans)

lemma steady_same: "events s1 = events s \<Longrightarrow> app s1 = app s \<Longrightarrow> steady s s1"
  by (simp add: steady_def emitsOnly_same)

lemma steady_one: "events s1 = events s @ [e] \<Longrightarrow> plain e \<Longrightarrow> app s1 = app s \<Longrightarrow> steady s s1"
  by (simp add: steady_def emitsOnly_one)

lemma steady_tick [simp]: "steady s (tick env s)"
  by (rule steady_same) simp_all

lemma steady_moveFile: "steady s (snd (moveFile env a f s))"
proof -
  have "events (snd (moveFile env a f s)) = events s @ [EvRemove a f] \<or>
        events (snd (moveFile env a f s)) =
          events s @ [EvRename a f (filepath_Join (ProcessedDirectory (config (app s))) (filepath_Base f))]"
    by (simp add: moveFile_def Let_def split_beta)
  then show ?thesis
    by (auto intro!: steady_one simp: plain_def)
qed

lemma steady_moveFiles: "steady s (snd (moveFiles env a fs s))"
proof (induction fs arbitrary: s)
  case Nil
  then show ?case by simp
next
  case (Cons f fs)
  have "steady s (snd (moveFile env a f s))" by (rule steady_moveFile)
  moreover have "steady (snd (moveFile env a f s)) (snd (moveFiles env a fs (snd (moveFile env a f s))))"
    by (rule Cons.IH)
  ultimately show ?case by (simp add: Let_def split_beta steady_trans)
qed

lemma steady_time_Sleep [simp]: "steady s (time_Sleep env d s)"
  by (rule steady_one [of _ _ "EvSleep d"]) (simp_all add: plain_def)

lemma steady_moveImages: "steady s (finalState (moveImages env files s))"
proof -
  let ?s1 = "snd (moveFiles env 1 files s)"
  let ?s2 = "snd (moveFiles env 2 (fst (moveFiles env 1 files s)) (time_Sleep env (3 * second_ns) ?s1))"
  have 1: "steady s ?s1" by (rule steady_moveFiles)
  have "steady ?s1 (time_Sleep env (3 * second_ns) ?s1)" by simp
  moreover have "steady (time_Sleep env (3 * second_ns) ?s1) ?s2" by (rule steady_moveFiles)
  ultimately have 2: "steady s ?s2" using 1 by (blast intro: steady_trans)
  have "finalState (moveImages env files s) = ?s1 \<or> finalState (moveImages env files s) = ?s2"
    unfolding moveImages_unrolled by (simp add: Let_def split_beta finalState_def)
  with 1 2 show ?thesis by auto
qed

lemma starts_append [simp]: "starts (a @ b) = starts a @ starts b"
  by (simp add: starts_def)

lemma starts_Nil [simp]: "starts [] = []"
  by (simp add: starts_def)

lemma starts_Cons [simp]: "starts (e # es) = startTime e @ starts es"
  by (simp add: starts_def)

lemma startTime_plain: "\<not> isStart e \<Longrightarrow> startTime e = []"
  by (cases e) simp_all

lemma starts_plain: "list_all (\<lambda>e. \<not> isStart e) new \<Longrightarrow> starts new = []"
  by (induction new) (simp_all add: startTime_plain)

lemma steady_throttled: "steady s s1 \<Longrightarrow> throttled s \<Longrightarrow> throttled s1"
proof -
  assume a: "steady s s1" and t: "throttled s"
  from a obtain new where n: "events s1 = events s @ new" "list_all plain new"
    and l: "lastUploadTime (app s1) = lastUploadTime (app s)"
    by (auto simp: steady_def emitsOnly_def)
  from n(2) have "list_all (\<lambda>e. \<not> isStart e) new"
    by (simp add: list_all_iff plain_def)
  then have "starts new = []" by (rule starts_plain)
  with n(1) have "starts (events s1) = starts (events s)" by simp
  with t l show ?thesis by (simp add: throttled_def)
qed

lemma steady_orderly: "steady s s1 \<Longrightarrow> orderly s s1"
  unfolding orderly_def
  by (auto simp: steady_throttled steady_def plain_def notFound_def elim: emitsOnly_mono)

lemma orderly_refl [simp]: "orderly s s"
  by (simp add: orderly_def)

lemma orderly_trans: "orderly s s1 \<Longrightarrow> orderly s1 s2 \<Longrightarrow> orderly s s2"
  by (auto simp: orderly_def intro: emitsOnly_trans)

lemma second_ns_pos: "0 \<le> second_ns"
  by (simp add: second_ns_def)

lemma apart_trans: "apart a b \<Longrightarrow> apart b c \<Longrightarrow> apart a c"
  using second_ns_pos by (simp add: apart_def)

lemma sorted_wrt_apart_snoc:
  "sorted_wrt apart xs \<Longrightarrow> (xs \<noteq> [] \<longrightarrow> apart (last xs) t) \<Longrightarrow> sorted_wrt apart (xs @ [t])"
proof (induction xs)
  case Nil
  then show ?case by simp
next
  case (Cons x xs)
  have xt: "apart x t"
  proof (cases "xs = []")
    case True
    with Cons.prems(2) show ?thesis by simp
  next
    case False
    then have "last xs \<in> set xs" by simp
    with Cons.prems(1) have "apart x (last xs)" by simp
    moreover from False Cons.prems(2) have "apart (last xs) t" by simp
    ultimately show ?thesis by (rule apart_trans)
  qed
  from Cons.prems have "sorted_wrt apart xs" "xs \<noteq> [] \<longrightarrow> apart (last xs) t" by auto
  then have "sorted_wrt apart (xs @ [t])" by (rule Cons.IH)
  with Cons.prems(1) xt show ?case by auto
qed

lemma throttled_uploadFile:
  assumes "throttled s"
  shows "throttled (finalState (uploadFile env p s))"
proof -
  let ?r = "recordUploadStart env p s"
  let ?f = "finalState (uploadFile env p s)"
  from sendFile_frame [of env p ?r] obtain tail where
    a: "app ?f = app ?r" and e: "events ?f = events ?r @ tail"
    and t: "tail = [] \<or> tail = [EvHttpPost p] \<or> (\<exists>c. tail = [EvHttpPost p, EvHttpResponse p c])"
    unfolding uploadFile_parts by blast
  from recordUploadStart_events [of env p s] obtain pre where
    r: "events ?r = events s @ EvUploadFile p # pre @ [EvUploadStart p (clock ?r)]"
    and p: "set pre \<subseteq> range EvSleep"
    by (elim exE conjE)
  have l: "lastUploadTime (app ?f) = Some (clock ?r)"
    using a recordUploadStart_time [of env p s] by simp
  from p have "list_all (\<lambda>e. \<not> isStart e) pre" by (auto simp: list_all_iff)
  then have sp: "starts pre = []" by (rule starts_plain)
  from t have st: "starts tail = []" by auto
  have s: "starts (events ?f) = starts (events s) @ [clock ?r]"
    by (simp add: e r sp st)
  have "starts (events s) \<noteq> [] \<longrightarrow> apart (last (starts (events s))) (clock ?r)"
  proof
    assume "starts (events s) \<noteq> []"
    with assms have "lastUploadTime (app s) = Some (last (starts (events s)))"
      by (simp add: throttled_def)
    from recordUploadStart_gap [OF this, of env p]
    show "apart (last (starts (events s))) (clock ?r)"
      by (simp add: apart_def uploadThrottleDelay_def)
  qed
  with assms have "sorted_wrt apart (starts (events s) @ [clock ?r])"
    by (intro sorted_wrt_apart_snoc) (simp_all add: throttled_def)
  with s l show ?thesis by (simp add: throttled_def)
qed

lemma notFound_uploadFile: "emitsOnly notFound s (finalState (uploadFile env p s))"
proof -
  let ?r = "recordUploadStart env p s"
  let ?f = "finalState (uploadFile env p s)"
  from sendFile_frame [of env p ?r] obtain tail where
    e: "events ?f = events ?r @ tail"
    and t: "tail = [] \<or> tail = [EvHttpPost p] \<or> (\<exists>c. tail = [EvHttpPost p, EvHttpResponse p c])"
    unfolding uploadFile_parts by blast
  from recordUploadStart_events [of env p s] obtain pre where
    r: "events ?r = events s @ EvUploadFile p # pre @ [EvUploadStart p (clock ?r)]"
    and p: "set pre \<subseteq> range EvSleep"
    by (elim exE conjE)
  from p have "list_all notFound pre" by (auto simp: list_all_iff notFound_def)
  moreover from t have "list_all notFound tail" by (auto simp: notFound_def)
  ultimately have "list_all notFound (EvUploadFile p # pre @ [EvUploadStart p (clock ?r)] @ tail)"
    by (simp add: notFound_def)
  moreover have "events ?f = events s @ (EvUploadFile p # pre @ [EvUploadStart p (clock ?r)] @ tail)"
    by (simp add: e r)
  ultimately show ?thesis unfolding emitsOnly_def by blast
qed

lemma orderly_uploadFile: "orderly s (finalState (uploadFile env p s))"
  by (simp add: orderly_def notFound_uploadFile throttled_uploadFile)

lemma steady_deleteFile: "steady s (snd (deleteFile env p s))"
  by (rule steady_one [of _ _ "EvDeleteFile p"])
     (simp_all add: plain_def deleteFile_def Let_def split_beta)

lemma orderly_makeJobForArchive: "orderly s (finalState (makeJobForArchive env p s))"
proof (cases "uploadFile env p s")
  case (Return err s1)
  then have u: "orderly s s1" using orderly_uploadFile [of s env p] by (simp add: finalState_def)
  show ?thesis
  proof (cases err)
    case True
    with Return u show ?thesis by (simp add: makeJobForArchive_def finalState_def)
  next
    case False
    have "orderly s1 (snd (deleteFile env p s1))"
      by (rule steady_orderly) (rule steady_deleteFile)
    with u have "orderly s (snd (deleteFile env p s1))" by (rule orderly_trans)
    with Return False show ?thesis by (simp add: makeJobForArchive_def finalState_def)
  qed
next
  case (Exit c s1)
  then show ?thesis using orderly_uploadFile [of s env p]
    by (simp add: makeJobForArchive_def finalState_def)
next
  case (Crash s1)
  then show ?thesis using orderly_uploadFile [of s env p]
    by (simp add: makeJobForArchive_def finalState_def)
qed

lemma orderly_makeJobForArchiveList:
  "orderly s (finalState (makeJobForArchiveList env ps s))"
proof (induction ps arbitrary: s)
  case Nil
  then show ?case by (simp add: finalState_def)
next
  case (Cons p ps)
  show ?case
  proof (cases "makeJobForArchive env p s")
    case (Return u s1)
    then have "orderly s s1" using orderly_makeJobForArchive [of s env p]
      by (simp add: finalState_def)
    moreover have "orderly s1 (finalState (makeJobForArchiveList env ps s1))" by (rule Cons.IH)
    ultimately show ?thesis using Return by (auto intro: orderly_trans)
  next
    case (Exit c s1)
    then show ?thesis using orderly_makeJobForArchive [of s env p] by (simp add: finalState_def)
  next
    case (Crash s1)
    then show ?thesis using orderly_makeJobForArchive [of s env p] by (simp add: finalState_def)
  qed
qed

lemma orderly_makeJobForArchives: "orderly s (finalState (makeJobForArchives env s))"
  by (simp add: makeJobForArchives_def orderly_makeJobForArchiveList)

lemma steady_createArchive: "steady s (snd (createArchive env a fs s))"
  by (rule steady_one [of _ _ "EvCreateArchive a fs"])
     (simp_all add: plain_def createArchive_def Let_def split_beta split: option.splits)

lemma steady_testArchive: "steady s (snd (testArchive env a s))"
  by (rule steady_one [of _ _ "EvTestArchive a"]) (simp_all add: plain_def testArchive_def)

text \<open>packImagesForArea after a non-empty group was found.\<close>

lemma packImagesForArea_found:
  assumes g: "getImageFiles (app s) (fsys s) area = Ok fg" and n: "FilesToArchive fg \<noteq> []"
  shows "steady (emit (EvFound area (length (FilesToArchive fg))) s)
           (finalState (packImagesForArea env area s))"
proof -
  define s0 where "s0 = emit (EvFound area (length (FilesToArchive fg))) s"
  define s1 where "s1 = time_Sleep env (5 * second_ns) s0"
  define s2 where "s2 = tick env s1"
  define nm where "nm = filepath_Join (tempDirectory (app s2)) (archiveName (app s2) area (civil env (clock s2)))"
  define s3 where "s3 = tick env s2"
  define s4 where "s4 = snd (createArchive env nm (FilesToArchive fg) s3)"
  define s5 where "s5 = snd (testArchive env nm s4)"
  define s6 where "s6 = tick env s5"
  define s7 where "s7 = finalState (moveImages env (FilesToDelete fg) s6)"
  have st: "steady s0 s1" "steady s1 s2" "steady s2 s3" "steady s3 s4" "steady s4 s5"
    "steady s5 s6" "steady s6 s7"
    unfolding s1_def s2_def s3_def s4_def s5_def s6_def s7_def
    by (simp_all add: steady_createArchive steady_testArchive steady_moveImages)
  then have all: "steady s0 s3" "steady s0 s4" "steady s0 s5" "steady s0 s6" "steady s0 s7"
    by (blast intro: steady_trans)+
  have "finalState (packImagesForArea env area s) \<in> {s3, s4, s5, s6, s7}"
    unfolding packImagesForArea_def g
    using n
    by (simp add: Let_def split_beta finalState_def s7_def s6_def s5_def s4_def s3_def nm_def
        s2_def s1_def s0_def split: outcome.splits)
  with all show ?thesis unfolding s0_def by auto
qed

lemma packImagesForArea_nothing:
  assumes "getImageFiles (app s) (fsys s) area = Failed \<or>
           getImageFiles (app s) (fsys s) area = Panicked \<or>
           (\<exists>fg. getImageFiles (app s) (fsys s) area = Ok fg \<and> FilesToArchive fg = [])"
  shows "finalState (packImagesForArea env area s) = s \<and>
         (\<forall>r s1. packImagesForArea env area s = Return r s1 \<longrightarrow> snd r \<or> fst r = EMPTY)"
  using assms by (auto simp: packImagesForArea_def finalState_def)

lemma makeJobForArea_nothing:
  assumes "getImageFiles (app s) (fsys s) area = Failed \<or>
           getImageFiles (app s) (fsys s) area = Panicked \<or>
           (\<exists>fg. getImageFiles (app s) (fsys s) area = Ok fg \<and> FilesToArchive fg = [])"
  shows "finalState (makeJobForArea env area s) = s"
  using assms
  by (auto simp: makeJobForArea_def packImagesForArea_def finalState_def ERROR_def EMPTY_def)

lemma makeJobForArea_found:
  assumes g: "getImageFiles (app s) (fsys s) area = Ok fg" and n: "FilesToArchive fg \<noteq> []"
  shows "orderly (emit (EvFound area (length (FilesToArchive fg))) s)
           (finalState (makeJobForArea env area s))"
proof -
  let ?s0 = "emit (EvFound area (length (FilesToArchive fg))) s"
  have p: "steady ?s0 (finalState (packImagesForArea env area s))"
    using g n by (rule packImagesForArea_found)
  show ?thesis
  proof (cases "packImagesForArea env area s")
    case (Return r s1)
    with p have s1: "orderly ?s0 s1" by (simp add: finalState_def steady_orderly)
    obtain archiveFile err where r: "r = (archiveFile, err)" by (cases r)
    show ?thesis
    proof (cases "err \<or> archiveFile = ERROR \<or> archiveFile = EMPTY")
      case True
      with Return r s1 show ?thesis by (auto simp: makeJobForArea_def finalState_def)
    next
      case False
      with Return r have "finalState (makeJobForArea env area s) =
          finalState (makeJobForArchive env archiveFile s1)"
        by (simp add: makeJobForArea_def)
      with s1 orderly_makeJobForArchive [of s1 env archiveFile] show ?thesis
        by (auto intro: orderly_trans)
    qed
  next
    case (Exit c s1)
    with p show ?thesis by (simp add: makeJobForArea_def finalState_def steady_orderly)
  next
    case (Crash s1)
    with p show ?thesis by (simp add: makeJobForArea_def finalState_def steady_orderly)
  qed
qed

lemma throttled_emit: "\<not> isStart e \<Longrightarrow> throttled (emit e s) = throttled s"
  by (simp add: throttled_def startTime_plain)

lemma throttled_makeJobForArea:
  assumes "throttled s"
  shows "throttled (finalState (makeJobForArea env area s))"
proof (cases "getImageFiles (app s) (fsys s) area")
  case (Ok fg)
  show ?thesis
  proof (cases "FilesToArchive fg = []")
    case True
    with Ok have "finalState (makeJobForArea env area s) = s"
      by (intro makeJobForArea_nothing) simp
    with assms show ?thesis by simp
  next
    case False
    from makeJobForArea_found [OF Ok False, of env] assms show ?thesis
      by (simp add: orderly_def throttled_emit)
  qed
next
  case Failed
  then have "finalState (makeJobForArea env area s) = s"
    by (intro makeJobForArea_nothing) simp
  with assms show ?thesis by simp
next
  case Panicked
  then have "finalState (makeJobForArea env area s) = s"
    by (intro makeJobForArea_nothing) simp
  with assms show ?thesis by simp
qed

lemma makeJobForAreasBody_final:
  "finalState (makeJobForAreasBody env area h s) = s \<or>
   finalState (makeJobForAreasBody env area h s) = finalState (makeJobForArea env area s)"
  by (auto simp: makeJobForAreasBody_def finalState_def split: result.splits outcome.splits)

lemma throttled_makeJobForAreasBody:
  "throttled s \<Longrightarrow> throttled (finalState (makeJobForAreasBody env area h s))"
  using makeJobForAreasBody_final [of env area h s] throttled_makeJobForArea [of s env area]
  by auto

lemma throttled_makeJobForAreasLoop:
  "throttled s \<Longrightarrow> throttled (finalState (makeJobForAreasLoop env as h s))"
proof (induction as arbitrary: h s)
  case Nil
  then show ?case by (simp add: finalState_def)
next
  case (Cons a as)
  from Cons.prems have b: "throttled (finalState (makeJobForAreasBody env a h s))"
    by (rule throttled_makeJobForAreasBody)
  show ?case
  proof (cases "makeJobForAreasBody env a h s")
    case (Return h1 s1)
    with b have "throttled s1" by (simp add: finalState_def)
    then have "throttled (finalState (makeJobForAreasLoop env as h1 s1))" by (rule Cons.IH)
    with Return show ?thesis by simp
  next
    case (Exit c s1)
    with b show ?thesis by (simp add: finalState_def)
  next
    case (Crash s1)
    with b show ?thesis by (simp add: finalState_def)
  qed
qed

lemma throttled_frame:
  "events s1 = events s \<Longrightarrow> lastUploadTime (app s1) = lastUploadTime (app s) \<Longrightarrow>
   throttled s1 = throttled s"
  by (simp add: throttled_def)

lemma throttled_makeJobForAreas:
  assumes "throttled s"
  shows "throttled (finalState (makeJobForAreas env s))"
proof -
  from assms have l: "throttled (finalState (makeJobForAreasLoop env (areas (app s)) False s))"
    by (rule throttled_makeJobForAreasLoop)
  show ?thesis
  proof (cases "makeJobForAreasLoop env (areas (app s)) False s")
    case (Return h s1)
    with l have s1: "throttled s1" by (simp add: finalState_def)
    let ?s2 = "tick env s1"
    have "throttled (?s2\<lparr>app := (app ?s2)\<lparr>testStartTime := clock ?s2\<rparr>\<rparr>) = throttled s1"
      by (rule throttled_frame) simp_all
    with Return s1 show ?thesis
      by (simp add: makeJobForAreas_def finalState_def Let_def split_beta)
  next
    case (Exit c s1)
    with l show ?thesis by (simp add: makeJobForAreas_def finalState_def)
  next
    case (Crash s1)
    with l show ?thesis by (simp add: makeJobForAreas_def finalState_def)
  qed
qed

lemma throttled_tick [simp]: "throttled (tick env s) = throttled s"
  by (rule throttled_frame) simp_all

lemma throttled_checkTestTimeout:
  "throttled s \<Longrightarrow> throttled (finalState (checkTestTimeout env s))"
  by (simp add: checkTestTimeout_def finalState_def Let_def split_beta)

lemma throttled_programLoop:
  assumes "throttled s"
  shows "throttled (finalState (programLoop env s))"
proof -
  from assms orderly_makeJobForArchives [of s env]
  have a: "throttled (finalState (makeJobForArchives env s))" by (simp add: orderly_def)
  show ?thesis
  proof (cases "makeJobForArchives env s")
    case (Return u s1)
    with a have "throttled s1" by (simp add: finalState_def)
    then have b: "throttled (finalState (makeJobForAreas env s1))" by (rule throttled_makeJobForAreas)
    show ?thesis
    proof (cases "makeJobForAreas env s1")
      case r: (Return v s2)
      with b have "throttled s2" by (simp add: finalState_def)
      then have "throttled (finalState (checkTestTimeout env s2))" by (rule throttled_checkTestTimeout)
      with Return r show ?thesis by (simp add: programLoop_def)
    next
      case (Exit c s2)
      with b Return show ?thesis by (simp add: programLoop_def finalState_def)
    next
      case (Crash s2)
      with b Return show ?thesis by (simp add: programLoop_def finalState_def)
    qed
  next
    case (Exit c s1)
    with a show ?thesis by (simp add: programLoop_def finalState_def)
  next
    case (Crash s1)
    with a show ?thesis by (simp add: programLoop_def finalState_def)
  qed
qed

lemma throttled_programLoops:
  "throttled s \<Longrightarrow> throttled (finalState (programLoops env n s))"
proof (induction n arbitrary: s)
  case 0
  then show ?case by (simp add: finalState_def)
next
  case (Suc n)
  from Suc.prems have p: "throttled (finalState (programLoop env s))" by (rule throttled_programLoop)
  show ?case
  proof (cases "programLoop env s")
    case (Return u s1)
    with p have "throttled s1" by (simp add: finalState_def)
    then have "throttled (finalState (programLoops env n s1))" by (rule Suc.IH)
    with Return show ?thesis by simp
  next
    case (Exit c s1)
    with p show ?thesis by (simp add: finalState_def)
  next
    case (Crash s1)
    with p show ?thesis by (simp add: finalState_def)
  qed
qed


lemma newEvents_self [simp]: "newEvents s s = []"
  by (simp add: newEvents_def)


section \<open>The throttle over the life of the process, and the batch gate\<close>

text \<open>
  C5. In any state where an earlier attempt recorded the start time \<open>t0\<close>, whatever
  happened since and however this call ends, uploadFile records a start time at least
  120 seconds after \<open>t0\<close>. When no attempt was recorded before, uploadFile does not
  sleep. The start time is recorded once per call, before the request is sent. Over any
  number of runs of programLoop from a fresh process, the recorded start times of all
  upload attempts are pairwise at least 120 seconds apart.
\<close>

theorem uploadFile_throttle:
  "(lastUploadTime (app s) = Some t0 \<longrightarrow>
      (\<exists>t1. lastUploadTime (app (finalState (uploadFile env p s))) = Some t1 \<and>
            t0 + 120 * second_ns \<le> t1)) \<and>
   (lastUploadTime (app s) = None \<longrightarrow>
      (\<forall>d. EvSleep d \<notin> set (newEvents s (finalState (uploadFile env p s))))) \<and>
   (\<exists>pre t post.
      newEvents s (finalState (uploadFile env p s)) = pre @ EvUploadStart p t # post \<and>
      lastUploadTime (app (finalState (uploadFile env p s))) = Some t \<and>
      (\<forall>q. EvHttpPost q \<notin> set pre) \<and>
      (\<forall>q u. EvUploadStart q u \<notin> set pre \<and> EvUploadStart q u \<notin> set post)) \<and>
   (events s0 = [] \<and> lastUploadTime (app s0) = None \<longrightarrow>
      sorted_wrt apart (starts (events (finalState (programLoops env n s0)))))"
proof -
  have "sorted_wrt apart (starts (events (finalState (programLoops env n s0))))"
    if "events s0 = [] \<and> lastUploadTime (app s0) = None"
  proof -
    from that have "throttled s0" by (simp add: throttled_def)
    then have "throttled (finalState (programLoops env n s0))" by (rule throttled_programLoops)
    then show ?thesis by (simp add: throttled_def)
  qed
  with uploadFile_throttle_step [of s t0 env p] show ?thesis by blast
qed

text \<open>
  The throttle on the example inputs: with a server that answers 500, two runs of
  programLoop make two upload attempts, 120 seconds apart.
\<close>

theorem uploadFile_throttle_witness:
  "lastUploadTime (app pendingState) = Some 0 \<and>
   (\<exists>t1. lastUploadTime (app (finalState (uploadFile serverErrorEnv pendingArchive pendingState))) =
            Some t1 \<and> 0 + 120 * second_ns \<le> t1) \<and>
   lastUploadTime (app startState) = None \<and>
   (\<forall>d. EvSleep d \<notin>
          set (newEvents startState (finalState (uploadFile serverErrorEnv pendingArchive startState)))) \<and>
   events startState = [] \<and>
   sorted_wrt apart (starts (events (finalState (programLoops serverErrorEnv 2 startState)))) \<and>
   starts (events (finalState (programLoops serverErrorEnv 2 startState))) =
     [5 * second_ns, 125 * second_ns]"
proof -
  have a: "lastUploadTime (app pendingState) = Some 0"
    by (simp add: pendingState_def)
  have b: "lastUploadTime (app startState) = None"
    by (simp add: startState_def exampleCam_def)
  have c: "events startState = []"
    by (simp add: startState_def)
  from uploadFile_throttle [of pendingState 0 serverErrorEnv pendingArchive startState 2] a
  have 1: "\<exists>t1. lastUploadTime (app (finalState (uploadFile serverErrorEnv pendingArchive pendingState))) =
            Some t1 \<and> 0 + 120 * second_ns \<le> t1" by blast
  from uploadFile_throttle [of startState 0 serverErrorEnv pendingArchive startState 2] b c
  have 2: "\<forall>d. EvSleep d \<notin>
          set (newEvents startState (finalState (uploadFile serverErrorEnv pendingArchive startState)))"
    and 3: "sorted_wrt apart (starts (events (finalState (programLoops serverErrorEnv 2 startState))))"
    by blast+
  have 4: "starts (events (finalState (programLoops serverErrorEnv 2 startState))) =
     [5 * second_ns, 125 * second_ns]"
    by code_simp
  from a b c 1 2 3 4 show ?thesis by blast
qed



end
